theory Spec2Isabelle
  imports Main "HOL-Library.FSet" "HOL-Library.Char_ord" "HOL-Library.List_Lexorder"
    "HOL-Library.Product_Lexorder"
begin

section \<open>Python strings\<close>

text \<open>
  Texts are modelled as ASCII strings: one \<^typ>\<open>char\<close> per character of the Python
  \<^verbatim>\<open>str\<close>. \<^verbatim>\<open>str.lower\<close> maps \<^verbatim>\<open>A\<close>..\<^verbatim>\<open>Z\<close> to \<^verbatim>\<open>a\<close>..\<^verbatim>\<open>z\<close>; the
  whitespace of \<^verbatim>\<open>str.strip\<close> and of the regular expression \<^verbatim>\<open>\s\<close> is, within ASCII,
  the code points 9 to 13 and 28 to 32.
\<close>

definition lower_char :: "char \<Rightarrow> char" where
  "lower_char c =
     (let n = (of_char c :: int) in if 65 \<le> n \<and> n \<le> 90 then char_of (n + 32) else c)"

definition lower :: "string \<Rightarrow> string" where
  "lower s = map lower_char s"

definition is_space :: "char \<Rightarrow> bool" where
  "is_space c = (let n = (of_char c :: int) in (9 \<le> n \<and> n \<le> 13) \<or> (28 \<le> n \<and> n \<le> 32))"

definition strip :: "string \<Rightarrow> string" where
  "strip s = rev (dropWhile is_space (rev (dropWhile is_space s)))"

text \<open>The slice \<^verbatim>\<open>s[i:j]\<close> for \<open>0 \<le> i\<close>, \<open>0 \<le> j\<close>.\<close>

definition slice :: "'a list \<Rightarrow> nat \<Rightarrow> nat \<Rightarrow> 'a list" where
  "slice s i j = take (j - i) (drop i s)"

primrec starts_with :: "string \<Rightarrow> string \<Rightarrow> bool" where
  "starts_with s [] = True"
| "starts_with s (p # ps) = (case s of [] \<Rightarrow> False | c # cs \<Rightarrow> c = p \<and> starts_with cs ps)"

text \<open>The substring test \<^verbatim>\<open>sub in s\<close>.\<close>

primrec contains_sub :: "string \<Rightarrow> string \<Rightarrow> bool" where
  "contains_sub [] sub = (sub = [])"
| "contains_sub (c # cs) sub = (starts_with (c # cs) sub \<or> contains_sub cs sub)"

text \<open>
  \<^verbatim>\<open>s.count(sub)\<close>: the number of non-overlapping occurrences, scanning from the
  left; the empty substring occurs \<open>len(s) + 1\<close> times. The scan skips the rest of an
  occurrence it has counted.
\<close>

fun count_from :: "string \<Rightarrow> nat \<Rightarrow> string \<Rightarrow> nat" where
  "count_from sub skip [] = 0"
| "count_from sub skip (c # cs) =
     (if 0 < skip then count_from sub (skip - 1) cs
      else if starts_with (c # cs) sub then 1 + count_from sub (length sub - 1) cs
      else count_from sub 0 cs)"

definition count_sub :: "string \<Rightarrow> string \<Rightarrow> nat" where
  "count_sub s sub = (if sub = [] then length s + 1 else count_from sub 0 s)"

section \<open>Regular expressions of the pattern tables\<close>

text \<open>
  The patterns of \<^verbatim>\<open>violation_detector.py\<close> are sequences of literal characters,
  \<^verbatim>\<open>\s+\<close>, an optional character (\<^verbatim>\<open>removed?\<close>) and an optional non-capturing
  group (\<^verbatim>\<open>(?:court\s+)?\<close>). \<open>items_rests p s\<close> lists, in the order in which Python's
  backtracking matcher tries them (greedy first), what is left of \<open>s\<close> after each way
  of matching \<open>p\<close> at the start of \<open>s\<close>; the match found is the first. The first
  argument of the matcher says whether the flag \<^verbatim>\<open>re.IGNORECASE\<close> is set, that is,
  whether characters are compared without case.
\<close>

datatype atom = Ch char | Ws

datatype item = One atom | Opt "atom list"

type_synonym pattern = "item list"

definition char_eq :: "bool \<Rightarrow> char \<Rightarrow> char \<Rightarrow> bool" where
  "char_eq ignorecase p c = (if ignorecase then lower_char p = lower_char c else p = c)"

fun ws_rests :: "string \<Rightarrow> string list" where
  "ws_rests [] = []"
| "ws_rests (c # cs) = (if is_space c then ws_rests cs @ [cs] else [])"

fun atom_rests :: "bool \<Rightarrow> atom \<Rightarrow> string \<Rightarrow> string list" where
  "atom_rests ic (Ch p) [] = []"
| "atom_rests ic (Ch p) (c # cs) = (if char_eq ic p c then [cs] else [])"
| "atom_rests ic Ws s = ws_rests s"

fun atoms_rests :: "bool \<Rightarrow> atom list \<Rightarrow> string \<Rightarrow> string list" where
  "atoms_rests ic [] s = [s]"
| "atoms_rests ic (a # as) s = concat (map (atoms_rests ic as) (atom_rests ic a s))"

fun items_rests :: "bool \<Rightarrow> pattern \<Rightarrow> string \<Rightarrow> string list" where
  "items_rests ic [] s = [s]"
| "items_rests ic (One a # is) s = concat (map (items_rests ic is) (atom_rests ic a s))"
| "items_rests ic (Opt g # is) s =
     concat (map (items_rests ic is) (atoms_rests ic g s)) @ items_rests ic is s"

definition match_len :: "bool \<Rightarrow> pattern \<Rightarrow> string \<Rightarrow> nat option" where
  "match_len ic p s =
     (case items_rests ic p s of [] \<Rightarrow> None | r # _ \<Rightarrow> Some (length s - length r))"

text \<open>
  \<^verbatim>\<open>re.finditer\<close>: the non-overlapping matches from left to right, as (start, end).
  The scan is at position \<open>pos\<close> and skips the \<open>skip\<close> characters left of the match
  before. Every pattern of the tables starts with a literal character, so no match is
  empty.
\<close>

fun finditer_from :: "bool \<Rightarrow> pattern \<Rightarrow> nat \<Rightarrow> nat \<Rightarrow> string \<Rightarrow> (nat \<times> nat) list" where
  "finditer_from ic p pos skip [] = []"
| "finditer_from ic p pos skip (c # cs) =
     (if 0 < skip then finditer_from ic p (pos + 1) (skip - 1) cs
      else (case match_len ic p (c # cs) of
              None \<Rightarrow> finditer_from ic p (pos + 1) 0 cs
            | Some n \<Rightarrow> (pos, pos + n) # finditer_from ic p (pos + 1) (n - 1) cs))"

definition finditer :: "bool \<Rightarrow> pattern \<Rightarrow> string \<Rightarrow> (nat \<times> nat) list" where
  "finditer ic p s = finditer_from ic p 0 0 s"

text \<open>The literal characters of a pattern.\<close>

fun atom_chars :: "atom \<Rightarrow> string" where
  "atom_chars (Ch c) = [c]"
| "atom_chars Ws = []"

fun item_chars :: "item \<Rightarrow> string" where
  "item_chars (One a) = atom_chars a"
| "item_chars (Opt g) = concat (map atom_chars g)"

definition lit :: "string \<Rightarrow> pattern" where
  "lit w = map (\<lambda>c. One (Ch c)) w"

definition ws :: pattern where
  "ws = [One Ws]"

text \<open>\<open>words [w1, w2, ...]\<close> is the pattern \<^verbatim>\<open>w1\s+w2\s+...\<close>.\<close>

fun words :: "string list \<Rightarrow> pattern" where
  "words [] = []"
| "words [w] = lit w"
| "words (w # w' # rest) = lit w @ ws @ words (w' # rest)"

section \<open>Python dictionaries and sorting\<close>

text \<open>
  A \<^verbatim>\<open>dict\<close> is an association list in insertion order: assigning to a key that is
  present keeps its place, a new key goes to the end.
\<close>

fun dict_set :: "('k \<times> 'v) list \<Rightarrow> 'k \<Rightarrow> 'v \<Rightarrow> ('k \<times> 'v) list" where
  "dict_set [] k v = [(k, v)]"
| "dict_set ((k', v') # kvs) k v =
     (if k' = k then (k, v) # kvs else (k', v') # dict_set kvs k v)"

definition dict_update :: "('k \<times> 'v) list \<Rightarrow> ('k \<times> 'v) list \<Rightarrow> ('k \<times> 'v) list" where
  "dict_update d other = foldl (\<lambda>acc (k, v). dict_set acc k v) d other"

text \<open>
  \<^verbatim>\<open>list.sort(key=f, reverse=True)\<close>: a stable sort, descending in the key.
  \<^verbatim>\<open>list.sort(key=f)\<close>: a stable sort, ascending.
\<close>

definition sort_desc :: "('a \<Rightarrow> int) \<Rightarrow> 'a list \<Rightarrow> 'a list" where
  "sort_desc f xs = sort_key (\<lambda>x. - f x) xs"

section \<open>ViolationDetector\<close>

text \<open>
  A violation is a Python dict; a key that some producers leave out is an optional
  field. \<open>vtype\<close> is the key \<^verbatim>\<open>type\<close>, \<open>vcontext\<close> the key \<^verbatim>\<open>context\<close>.
\<close>

record violation =
  vtype :: string
  description :: "string option"
  severity :: "string option"
  vcontext :: "string option"
  pattern_matched :: "string option"
  position :: "(nat \<times> nat) option"
  severity_score :: "int option"
  document_hash :: "string option"
  document_name :: "string option"

record violation_info =
  patterns :: "pattern list"
  info_severity :: string
  info_description :: string

definition violation_patterns :: "(string \<times> violation_info) list" where
  "violation_patterns =
    [(''constitutional_violation'',
      \<lparr>patterns = [words [''constitutional'', ''violation''],
                   words [''fourteenth'', ''amendment'', ''violation''],
                   words [''due'', ''process'', ''violation''],
                   words [''equal'', ''protection'', ''violation'']],
       info_severity = ''high'',
       info_description = ''Constitutional rights violation''\<rparr>),
     (''removal_without_court_order'',
      \<lparr>patterns = [lit ''remove'' @ [Opt [Ch CHR ''d'']] @ ws @ lit ''without'' @ ws
                     @ [Opt ([Ch CHR ''c'', Ch CHR ''o'', Ch CHR ''u'', Ch CHR ''r'', Ch CHR ''t'', Ws])]
                     @ lit ''order'',
                   words [''emergency'', ''removal'', ''without'', ''hearing''],
                   words [''taken'', ''into'', ''custody'', ''without'', ''warrant'']],
       info_severity = ''high'',
       info_description = ''Child removed without proper court authorization''\<rparr>),
     (''due_process_denial'',
      \<lparr>patterns = [lit ''denied'' @ ws
                     @ [Opt ([Ch CHR ''d'', Ch CHR ''u'', Ch CHR ''e'', Ws])] @ lit ''process'',
                   words [''no'', ''notice'', ''provided''],
                   words [''insufficient'', ''notice''],
                   words [''ex'', ''parte'', ''proceeding'']],
       info_severity = ''high'',
       info_description = ''Due process rights denied''\<rparr>),
     (''delayed_icpc'',
      \<lparr>patterns = [words [''icpc'', ''delay''],
                   words [''interstate'', ''compact'', ''violation''],
                   words [''delayed'', ''placement'', ''approval''],
                   words [''icpc'', ''not'', ''completed'']],
       info_severity = ''medium'',
       info_description = ''Delayed ICPC processing affecting placement''\<rparr>),
     (''missed_hearing'',
      \<lparr>patterns = [words [''hearing'', ''not'', ''held''],
                   words [''missed'', ''hearing''],
                   words [''hearing'', ''postponed'', ''repeatedly''],
                   words [''no'', ''permanency'', ''hearing'']],
       info_severity = ''medium'',
       info_description = ''Required hearings missed or delayed''\<rparr>),
     (''inadequate_reunification'',
      \<lparr>patterns = [words [''no'', ''reunification'', ''effort''] @ [Opt [Ch CHR ''s'']],
                   words [''insufficient'', ''reunification''],
                   words [''failed'', ''to'', ''provide'', ''services''],
                   words [''reunification'', ''not'', ''attempted'']],
       info_severity = ''medium'',
       info_description = ''Inadequate or missing reunification efforts''\<rparr>),
     (''procedural_error'',
      \<lparr>patterns = [words [''procedural'', ''error''],
                   words [''improper'', ''procedure''],
                   words [''failed'', ''to'', ''follow'', ''protocol''],
                   words [''statutory'', ''violation'']],
       info_severity = ''medium'',
       info_description = ''Procedural or statutory requirements not followed''\<rparr>),
     (''documentation_error'',
      \<lparr>patterns = [words [''missing'', ''documentation''],
                   words [''incomplete'', ''records''],
                   words [''filing'', ''error''],
                   words [''administrative'', ''error'']],
       info_severity = ''low'',
       info_description = ''Documentation or administrative errors''\<rparr>),
     (''timeline_violation'',
      \<lparr>patterns = [words [''deadline'', ''missed''],
                   words [''untimely'', ''filing''],
                   words [''late'', ''submission''],
                   words [''time'', ''limit'', ''exceeded'']],
       info_severity = ''low'',
       info_description = ''Timeline or deadline violations''\<rparr>)]"

definition cps_violations :: "(string \<times> violation_info) list" where
  "cps_violations =
    [(''safety_plan_violation'',
      \<lparr>patterns = [words [''safety'', ''plan'', ''not'', ''followed''],
                   words [''violated'', ''safety'', ''plan''],
                   words [''safety'', ''plan'', ''breach'']],
       info_severity = ''high'',
       info_description = ''Safety plan violations''\<rparr>),
     (''visitation_denial'',
      \<lparr>patterns = [words [''visitation'', ''denied''],
                   words [''denied'', ''access'', ''to'', ''child''],
                   words [''supervised'', ''visitation'', ''cancelled''],
                   words [''no'', ''visitation'', ''allowed'']],
       info_severity = ''medium'',
       info_description = ''Improper denial of parent-child contact''\<rparr>),
     (''case_plan_violation'',
      \<lparr>patterns = [words [''case'', ''plan'', ''not'', ''followed''],
                   words [''isp'', ''violation''],
                   words [''service'', ''plan'', ''breach''],
                   words [''treatment'', ''plan'', ''ignored'']],
       info_severity = ''medium'',
       info_description = ''Case plan or ISP requirements not met''\<rparr>)]"

definition family_court_violations :: "(string \<times> violation_info) list" where
  "family_court_violations =
    [(''custody_order_violation'',
      \<lparr>patterns = [words [''custody'', ''order'', ''violated''],
                   words [''parenting'', ''time'', ''denied''],
                   words [''contempt'', ''of'', ''court''],
                   words [''order'', ''not'', ''followed'']],
       info_severity = ''medium'',
       info_description = ''Court custody orders not followed''\<rparr>),
     (''judicial_bias'',
      \<lparr>patterns = [words [''judicial'', ''bias''],
                   words [''prejudiced'', ''judge''],
                   words [''biased'', ''ruling''],
                   words [''conflict'', ''of'', ''interest'']],
       info_severity = ''high'',
       info_description = ''Evidence of judicial bias or conflict''\<rparr>)]"

text \<open>\<^verbatim>\<open>_get_severity_score\<close>: \<^verbatim>\<open>scores.get(severity, 1)\<close>.\<close>

definition get_severity_score :: "string \<Rightarrow> int" where
  "get_severity_score sev =
     (if sev = ''high'' then 3 else if sev = ''medium'' then 2 else if sev = ''low'' then 1 else 1)"

text \<open>
  \<^verbatim>\<open>_deduplicate_violations\<close>. The key is the f-string
  \<^verbatim>\<open>f"{violation['type']}_{violation.get('context', '')[:50]}"\<close>.
\<close>

definition dedup_key :: "violation \<Rightarrow> string" where
  "dedup_key v =
     vtype v @ ''_'' @ take 50 (case vcontext v of None \<Rightarrow> [] | Some c \<Rightarrow> c)"

fun dedup_loop :: "violation list \<Rightarrow> string set \<Rightarrow> violation list \<Rightarrow> violation list" where
  "dedup_loop [] seen deduplicated = deduplicated"
| "dedup_loop (v # vs) seen deduplicated =
     (if dedup_key v \<notin> seen
      then dedup_loop vs (insert (dedup_key v) seen) (deduplicated @ [v])
      else dedup_loop vs seen deduplicated)"

definition deduplicate_violations :: "violation list \<Rightarrow> violation list" where
  "deduplicate_violations violations = dedup_loop violations {} []"

text \<open>
  \<^verbatim>\<open>detect_violations\<close>. The pattern tables that apply: the general table, then the
  CPS table and the family court table when the document type or the text says so.
\<close>

definition select_patterns :: "string \<Rightarrow> string \<Rightarrow> (string \<times> violation_info) list" where
  "select_patterns text_lower document_type =
     (let all_patterns = violation_patterns;
          all_patterns =
            (if contains_sub (lower document_type) ''cps''
                \<or> list_ex (contains_sub text_lower) [''cps'', ''child protective'', ''dhr'']
             then dict_update all_patterns cps_violations else all_patterns);
          all_patterns =
            (if contains_sub (lower document_type) ''custody''
                \<or> contains_sub text_lower ''family court''
             then dict_update all_patterns family_court_violations else all_patterns)
      in all_patterns)"

text \<open>The record appended for one match: the context is 100 characters to each side.\<close>

definition match_violation ::
  "string \<Rightarrow> string \<Rightarrow> string \<Rightarrow> violation_info \<Rightarrow> nat \<times> nat \<Rightarrow> violation" where
  "match_violation text text_lower violation_type violation_info m =
     (let start = fst m - 100;
          end' = min (length text) (snd m + 100)
      in \<lparr>vtype = violation_type,
          description = Some (info_description violation_info),
          severity = Some (info_severity violation_info),
          vcontext = Some (strip (slice text start end')),
          pattern_matched = Some (slice text_lower (fst m) (snd m)),
          position = Some m,
          severity_score = Some (get_severity_score (info_severity violation_info)),
          document_hash = None,
          document_name = None\<rparr>)"

text \<open>
  The list \<^verbatim>\<open>violations\<close> after the three nested loops, in the order of the appends.
  The matches are those of \<^verbatim>\<open>re.finditer(pattern, text_lower, re.IGNORECASE)\<close>.
\<close>

definition scan_patterns :: "string \<Rightarrow> (string \<times> violation_info) list \<Rightarrow> violation list" where
  "scan_patterns text all_patterns =
     concat (map (\<lambda>(violation_type, violation_info).
       concat (map (\<lambda>pattern.
           map (match_violation text (lower text) violation_type violation_info)
             (finditer True pattern (lower text)))
         (patterns violation_info)))
       all_patterns)"

definition found_violations :: "string \<Rightarrow> string \<Rightarrow> violation list" where
  "found_violations text document_type =
     scan_patterns text (select_patterns (lower text) document_type)"

definition score_key :: "violation \<Rightarrow> int" where
  "score_key v = (case severity_score v of Some n \<Rightarrow> n | None \<Rightarrow> 0)"

definition detect_violations :: "string \<Rightarrow> string \<Rightarrow> violation list" where
  "detect_violations text document_type =
     sort_desc score_key (deduplicate_violations (found_violations text document_type))"

text \<open>The text of the scenario of the specification.\<close>

definition scenario_text :: string where
  "scenario_text =
     ''The court found a due process violation in denying notice. '' @
     ''Due process violation occurred again here.''"

section \<open>LegalDocumentAnalyzer: the document classifier\<close>

definition document_types :: "(string \<times> string list) list" where
  "document_types =
    [(''petition'', [''petition'', ''complaint'', ''filing'']),
     (''motion'', [''motion'', ''request'', ''application'']),
     (''order'', [''order'', ''judgment'', ''decree'', ''ruling'']),
     (''pleading'', [''answer'', ''response'', ''reply'', ''counter'']),
     (''evidence'', [''exhibit'', ''affidavit'', ''declaration'', ''testimony'']),
     (''custody'', [''custody'', ''visitation'', ''parenting'', ''child support'']),
     (''cps'', [''cps'', ''child protective'', ''dhr'', ''removal'', ''placement'']),
     (''isp'', [''service plan'', ''case plan'', ''treatment plan'', ''goals''])]"

text \<open>
  The dict returned by \<^verbatim>\<open>analyze_document_type\<close>; \<open>dt_type\<close> is the key \<^verbatim>\<open>type\<close>. The
  confidence is the quotient of two integers, kept exact here (Python rounds it to the
  nearest double; 0.0 and 1.0 are exact).
\<close>

record document_type_info =
  dt_type :: "string option"
  confidence :: "rat option"
  all_scores :: "(string \<times> nat) list option"

text \<open>The score of one type: \<^verbatim>\<open>sum(text_lower.count(keyword) for keyword in keywords)\<close>.\<close>

definition keyword_score :: "string \<Rightarrow> string list \<Rightarrow> nat" where
  "keyword_score text_lower keywords = sum_list (map (count_sub text_lower) keywords)"

text \<open>The score computed for each type, in the order of the table.\<close>

definition scored :: "string \<Rightarrow> (string \<times> nat) list" where
  "scored text_lower =
     map (\<lambda>(doc_type, keywords). (doc_type, keyword_score text_lower keywords)) document_types"

text \<open>The dict \<^verbatim>\<open>scores\<close>: the types with a positive score.\<close>

definition type_scores :: "string \<Rightarrow> (string \<times> nat) list" where
  "type_scores text_lower = filter (\<lambda>(doc_type, score). 0 < score) (scored text_lower)"

text \<open>\<^verbatim>\<open>max(scores, key=scores.get)\<close>: the first key whose score no other key exceeds.\<close>

fun max_by_score :: "string \<times> nat \<Rightarrow> (string \<times> nat) list \<Rightarrow> string \<times> nat" where
  "max_by_score best [] = best"
| "max_by_score best (kv # rest) = max_by_score (if snd best < snd kv then kv else best) rest"

definition analyze_document_type :: "string \<Rightarrow> document_type_info" where
  "analyze_document_type text =
     (let scores = type_scores (lower text) in
      case scores of
        [] \<Rightarrow> \<lparr>dt_type = Some ''unknown'', confidence = Some 0, all_scores = None\<rparr>
      | kv # rest \<Rightarrow>
          (let primary = max_by_score kv rest;
               total_score = sum_list (map snd scores)
           in \<lparr>dt_type = Some (fst primary),
               confidence = Some (of_nat (snd primary) / of_nat total_score),
               all_scores = Some scores\<rparr>))"

section \<open>Dates\<close>

text \<open>
  A \<^verbatim>\<open>datetime\<close>. Every datetime of this program comes from \<^verbatim>\<open>_parse_date\<close>, whose
  formats have no directive for the time of day: hour, minute and second are always
  zero, and the value is its calendar date. Datetimes compare as the tuples
  (year, month, day).
\<close>

record datetime =
  year :: int
  month :: int
  day :: int

definition date_tuple :: "datetime \<Rightarrow> int \<times> int \<times> int" where
  "date_tuple d = (year d, month d, day d)"

definition is_leap :: "int \<Rightarrow> bool" where
  "is_leap y = (y mod 4 = 0 \<and> (y mod 100 \<noteq> 0 \<or> y mod 400 = 0))"

definition days_in_month :: "int \<Rightarrow> int \<Rightarrow> int" where
  "days_in_month y m =
     (if m = 2 \<and> is_leap y then 29
      else if m = 2 then 28
      else if m = 4 \<or> m = 6 \<or> m = 9 \<or> m = 11 then 30
      else 31)"

text \<open>The constructor \<^verbatim>\<open>datetime(year, month, day)\<close>; \<open>None\<close> is its \<^verbatim>\<open>ValueError\<close>.\<close>

definition make_datetime :: "int \<Rightarrow> int \<Rightarrow> int \<Rightarrow> datetime option" where
  "make_datetime y m d =
     (if 1 \<le> y \<and> y \<le> 9999 \<and> 1 \<le> m \<and> m \<le> 12 \<and> 1 \<le> d \<and> d \<le> days_in_month y m
      then Some \<lparr>year = y, month = m, day = d\<rparr> else None)"

text \<open>\<^verbatim>\<open>toordinal\<close>: the day number in the proleptic Gregorian calendar, 0001-01-01 is day 1.\<close>

definition days_before_year :: "int \<Rightarrow> int" where
  "days_before_year y = (y - 1) * 365 + (y - 1) div 4 - (y - 1) div 100 + (y - 1) div 400"

definition days_before_month :: "int \<Rightarrow> int \<Rightarrow> int" where
  "days_before_month y m = sum_list (map (days_in_month y) [1..m - 1])"

definition toordinal :: "datetime \<Rightarrow> int" where
  "toordinal d = days_before_year (year d) + days_before_month (year d) (month d) + day d"

text \<open>\<^verbatim>\<open>(a - b).days\<close> for two datetimes at midnight.\<close>

definition days_between :: "datetime \<Rightarrow> datetime \<Rightarrow> int" where
  "days_between a b = toordinal a - toordinal b"

text \<open>\<^verbatim>\<open>str(n)\<close> for an integer: the decimal digits, after a minus sign if it is negative.\<close>

function str_digits :: "int \<Rightarrow> string" where
  "str_digits n =
     (if n < 10 then [char_of (48 + n)] else str_digits (n div 10) @ [char_of (48 + n mod 10)])"
  by pat_completeness auto
termination by (relation "measure nat") auto

definition str_int :: "int \<Rightarrow> string" where
  "str_int i = (if i < 0 then ''-'' @ str_digits (- i) else str_digits i)"

text \<open>The errors the modelled code can raise.\<close>

datatype py_error = KeyError | TypeError

text \<open>
  The value under the key \<^verbatim>\<open>date\<close> of a timeline event: the \<^verbatim>\<open>datetime\<close> that
  \<^verbatim>\<open>generate_timeline\<close> stores, or a \<^verbatim>\<open>str\<close>, which is what a case read back from its
  file holds (\<^verbatim>\<open>json.dump\<close> writes a datetime through \<^verbatim>\<open>default=str\<close>, and nothing turns
  the string back into a datetime after \<^verbatim>\<open>json.load\<close>). Python's \<^verbatim>\<open>None\<close> is the \<open>None\<close>
  of the option type.
\<close>

datatype date_value = Datetime datetime | DateStr string

text \<open>The truth value of a date: a datetime is true, a string is true unless empty.\<close>

definition date_truthy :: "date_value option \<Rightarrow> bool" where
  "date_truthy v =
     (case v of None \<Rightarrow> False | Some (Datetime d) \<Rightarrow> True | Some (DateStr x) \<Rightarrow> x \<noteq> [])"

text \<open>
  \<^verbatim>\<open>(a - b).days\<close>: the subtraction is defined for two datetimes only; with a string
  or \<^verbatim>\<open>None\<close> on either side it raises \<^verbatim>\<open>TypeError\<close>.
\<close>

definition date_minus :: "date_value option \<Rightarrow> date_value option \<Rightarrow> py_error + int" where
  "date_minus a b =
     (case a of
        Some (Datetime x) \<Rightarrow>
          (case b of Some (Datetime y) \<Rightarrow> Inr (days_between x y) | _ \<Rightarrow> Inl TypeError)
      | _ \<Rightarrow> Inl TypeError)"

text \<open>
  \<^verbatim>\<open>str(d)\<close> for a datetime at midnight: \<^verbatim>\<open>YYYY-MM-DD 00:00:00\<close>, the year filled
  with zeros to four digits, month and day to two.
\<close>

definition zfill :: "nat \<Rightarrow> string \<Rightarrow> string" where
  "zfill width x = replicate (width - length x) CHR ''0'' @ x"

definition str_datetime :: "datetime \<Rightarrow> string" where
  "str_datetime d =
     zfill 4 (str_int (year d)) @ ''-'' @ zfill 2 (str_int (month d)) @ ''-''
       @ zfill 2 (str_int (day d)) @ '' 00:00:00''"

section \<open>datetime.strptime\<close>

text \<open>
  Python's \<^verbatim>\<open>_strptime\<close> turns a format into a regular expression and matches it at
  the start of the string, without case: \<^verbatim>\<open>%m\<close> is \<^verbatim>\<open>1[0-2]|0[1-9]|[1-9]\<close>, \<^verbatim>\<open>%d\<close> is
  \<^verbatim>\<open>3[0-1]|[1-2]\d|0[1-9]|[1-9]| [1-9]\<close>, \<^verbatim>\<open>%Y\<close> is \<^verbatim>\<open>\d\d\d\d\<close>, \<^verbatim>\<open>%y\<close> is \<^verbatim>\<open>\d\d\<close>,
  \<^verbatim>\<open>%B\<close> and \<^verbatim>\<open>%b\<close> are the month names, longest first, and white space in the format
  is \<^verbatim>\<open>\s+\<close>. The first match in the matcher's order is taken; a match that leaves
  characters over, or a date that does not exist, is a \<^verbatim>\<open>ValueError\<close> (\<open>None\<close>).
\<close>

datatype directive = Lit char | Space | Dir_m | Dir_d | Dir_Y | Dir_y | Dir_B | Dir_b

definition in_range :: "char \<Rightarrow> char \<Rightarrow> char \<Rightarrow> bool" where
  "in_range lo hi c = ((of_char lo :: int) \<le> of_char c \<and> (of_char c :: int) \<le> of_char hi)"

definition digit_val :: "char \<Rightarrow> int" where
  "digit_val c = of_char c - 48"

text \<open>\<^verbatim>\<open>int(s)\<close> for a string of digits, white space around it ignored.\<close>

definition py_int :: "string \<Rightarrow> int" where
  "py_int s = foldl (\<lambda>acc c. 10 * acc + digit_val c) 0 (strip s)"

text \<open>One alternative of a directive: a sequence of character classes \<^verbatim>\<open>[lo-hi]\<close>.\<close>

fun match_classes :: "(char \<times> char) list \<Rightarrow> string \<Rightarrow> (string \<times> string) option" where
  "match_classes [] s = Some ([], s)"
| "match_classes (cl # cls) [] = None"
| "match_classes (cl # cls) (c # cs) =
     (if in_range (fst cl) (snd cl) c
      then (case match_classes cls cs of None \<Rightarrow> None | Some (m, r) \<Rightarrow> Some (c # m, r))
      else None)"

definition alts_rests :: "(char \<times> char) list list \<Rightarrow> string \<Rightarrow> (string \<times> string) list" where
  "alts_rests alts s =
     concat (map (\<lambda>alt. case match_classes alt s of None \<Rightarrow> [] | Some mr \<Rightarrow> [mr]) alts)"

definition digit_class :: "char \<times> char" where
  "digit_class = (CHR ''0'', CHR ''9'')"

definition m_alts :: "(char \<times> char) list list" where
  "m_alts = [[(CHR ''1'', CHR ''1''), (CHR ''0'', CHR ''2'')],
             [(CHR ''0'', CHR ''0''), (CHR ''1'', CHR ''9'')],
             [(CHR ''1'', CHR ''9'')]]"

definition d_alts :: "(char \<times> char) list list" where
  "d_alts = [[(CHR ''3'', CHR ''3''), (CHR ''0'', CHR ''1'')],
             [(CHR ''1'', CHR ''2''), digit_class],
             [(CHR ''0'', CHR ''0''), (CHR ''1'', CHR ''9'')],
             [(CHR ''1'', CHR ''9'')],
             [(CHR '' '', CHR '' ''), (CHR ''1'', CHR ''9'')]]"

definition Y_alts :: "(char \<times> char) list list" where
  "Y_alts = [[digit_class, digit_class, digit_class, digit_class]]"

definition y_alts :: "(char \<times> char) list list" where
  "y_alts = [[digit_class, digit_class]]"

definition f_month :: "string list" where
  "f_month = [''january'', ''february'', ''march'', ''april'', ''may'', ''june'', ''july'',
              ''august'', ''september'', ''october'', ''november'', ''december'']"

definition a_month :: "string list" where
  "a_month = [''jan'', ''feb'', ''mar'', ''apr'', ''may'', ''jun'', ''jul'', ''aug'', ''sep'',
              ''oct'', ''nov'', ''dec'']"

text \<open>\<^verbatim>\<open>__seqToRE\<close>: the alternatives, \<^verbatim>\<open>sorted(to_convert, key=len, reverse=True)\<close>.\<close>

definition seqToRE :: "string list \<Rightarrow> string list" where
  "seqToRE to_convert = sort_desc (\<lambda>w. int (length w)) to_convert"

fun match_nocase :: "string \<Rightarrow> string \<Rightarrow> string option" where
  "match_nocase [] s = Some s"
| "match_nocase (p # ps) [] = None"
| "match_nocase (p # ps) (c # cs) =
     (if lower_char p = lower_char c then match_nocase ps cs else None)"

text \<open>\<^verbatim>\<open>names.index(w)\<close> for a month name, counted from 1 (the tables start with an empty entry).\<close>

fun month_index :: "string list \<Rightarrow> string \<Rightarrow> int" where
  "month_index [] w = 1"
| "month_index (n # ns) w = (if n = w then 1 else 1 + month_index ns w)"

definition month_rests :: "string list \<Rightarrow> string \<Rightarrow> (int \<times> string) list" where
  "month_rests names s =
     concat (map (\<lambda>w. case match_nocase w s of None \<Rightarrow> [] | Some r \<Rightarrow> [(month_index names w, r)])
       (seqToRE names))"

text \<open>
  The fields found so far are (year, month, day). \<open>directive_rests\<close> lists the ways one
  directive matches at the start of the string, in the matcher's order, each with the
  fields it sets and what is left of the string.
\<close>

fun directive_rests ::
  "directive \<Rightarrow> int \<times> int \<times> int \<Rightarrow> string \<Rightarrow> ((int \<times> int \<times> int) \<times> string) list" where
  "directive_rests (Lit p) f s =
     (case s of [] \<Rightarrow> [] | c # cs \<Rightarrow> if lower_char p = lower_char c then [(f, cs)] else [])"
| "directive_rests Space f s = map (\<lambda>r. (f, r)) (ws_rests s)"
| "directive_rests Dir_m (y, m, d) s = map (\<lambda>(t, r). ((y, py_int t, d), r)) (alts_rests m_alts s)"
| "directive_rests Dir_d (y, m, d) s = map (\<lambda>(t, r). ((y, m, py_int t), r)) (alts_rests d_alts s)"
| "directive_rests Dir_Y (y, m, d) s = map (\<lambda>(t, r). ((py_int t, m, d), r)) (alts_rests Y_alts s)"
| "directive_rests Dir_y (y, m, d) s =
     map (\<lambda>(t, r). ((if py_int t \<le> 68 then py_int t + 2000 else py_int t + 1900, m, d), r))
       (alts_rests y_alts s)"
| "directive_rests Dir_B (y, m, d) s = map (\<lambda>(n, r). ((y, n, d), r)) (month_rests f_month s)"
| "directive_rests Dir_b (y, m, d) s = map (\<lambda>(n, r). ((y, n, d), r)) (month_rests a_month s)"

fun format_rests ::
  "directive list \<Rightarrow> int \<times> int \<times> int \<Rightarrow> string \<Rightarrow> ((int \<times> int \<times> int) \<times> string) list" where
  "format_rests [] f s = [(f, s)]"
| "format_rests (x # xs) f s =
     concat (map (\<lambda>(f', r). format_rests xs f' r) (directive_rests x f s))"

definition strptime :: "string \<Rightarrow> directive list \<Rightarrow> datetime option" where
  "strptime data_string fmt =
     (case format_rests fmt (1900, 1, 1) data_string of
        [] \<Rightarrow> None
      | ((y, m, d), r) # _ \<Rightarrow> if r \<noteq> [] then None else make_datetime y m d)"

text \<open>The list \<^verbatim>\<open>date_formats\<close> of \<^verbatim>\<open>_parse_date\<close>, in its order.\<close>

definition date_formats :: "directive list list" where
  "date_formats =
    [[Dir_m, Lit CHR ''/'', Dir_d, Lit CHR ''/'', Dir_Y],
     [Dir_m, Lit CHR ''-'', Dir_d, Lit CHR ''-'', Dir_Y],
     [Dir_m, Lit CHR ''/'', Dir_d, Lit CHR ''/'', Dir_y],
     [Dir_m, Lit CHR ''-'', Dir_d, Lit CHR ''-'', Dir_y],
     [Dir_B, Space, Dir_d, Lit CHR '','', Space, Dir_Y],
     [Dir_b, Space, Dir_d, Lit CHR '','', Space, Dir_Y],
     [Dir_B, Space, Dir_d, Space, Dir_Y],
     [Dir_b, Space, Dir_d, Space, Dir_Y],
     [Dir_Y, Lit CHR ''-'', Dir_m, Lit CHR ''-'', Dir_d],
     [Dir_d, Lit CHR ''/'', Dir_m, Lit CHR ''/'', Dir_Y],
     [Dir_d, Lit CHR ''-'', Dir_m, Lit CHR ''-'', Dir_Y]]"

text \<open>
  \<^verbatim>\<open>_parse_date\<close>: the loop over the formats returns at the first that parses; the
  \<^verbatim>\<open>ValueError\<close> of the others is caught.
\<close>

fun first_parse :: "string \<Rightarrow> directive list list \<Rightarrow> datetime option" where
  "first_parse s [] = None"
| "first_parse s (fmt # fmts) =
     (case strptime s fmt of Some d \<Rightarrow> Some d | None \<Rightarrow> first_parse s fmts)"

definition parse_date :: "string \<Rightarrow> datetime option" where
  "parse_date date_str = first_parse (strip date_str) date_formats"

section \<open>CaseManager: the case and its documents\<close>

text \<open>
  A value of the dict \<^verbatim>\<open>case_data['entities']\<close>: a \<^verbatim>\<open>set\<close> of strings, a \<^verbatim>\<open>list\<close> of
  strings (after a save, or as read from JSON), or a \<^verbatim>\<open>str\<close> (what \<^verbatim>\<open>json.dump\<close> with
  \<^verbatim>\<open>default=str\<close> writes for a value that is not JSON).
\<close>

datatype entity_value = PySet "string fset" | PyList "string list" | PyStr string

type_synonym entities_dict = "(string \<times> entity_value) list"

record document_analysis =
  analysis_filename :: "string option"

text \<open>
  The dict \<^verbatim>\<open>legal_analysis\<close>: the keys the case manager reads, each optional.
  \<open>legal_entities\<close> maps an entity kind to the list of its values.
\<close>

record legal_analysis =
  legal_entities :: "(string \<times> string list) list option"
  document_type :: "document_type_info option"
  potential_violations :: "violation list option"

record doc_entry =
  pdf_hash :: string
  upload_date :: string
  doc_analysis :: document_analysis
  doc_legal_analysis :: legal_analysis
  filename :: string

record timeline_event =
  date :: "date_value option"
  date_str :: string
  document :: string
  event_document_hash :: string
  event_document_type :: string
  event_context :: string

record contradiction =
  contradiction_type :: string
  contradiction_severity :: string
  contradiction_description :: string
  contradiction_documents :: "string list"
  case_number :: string

text \<open>
  An entry of \<^verbatim>\<open>actor_tracking\<close>. Its \<^verbatim>\<open>documents\<close> are a set while the entries are
  built and a list in the result, hence the type parameter.
\<close>

record 'd actor_record =
  actor_type :: string
  actor_violations :: "violation list"
  actor_documents :: 'd
  actor_severity_score :: int

text \<open>
  The dict \<^verbatim>\<open>case_data\<close>. The type parameter is what the key \<^verbatim>\<open>entities\<close> holds: the
  dict of the entities itself where no aliasing matters, its address in the store
  where it does (\<^verbatim>\<open>save_case_session\<close>).
\<close>

record 'e case_data =
  case_id :: string
  case_name :: string
  created_date :: string
  documents :: "(string \<times> doc_entry) list"
  timeline :: "timeline_event list"
  entities :: 'e
  violations :: "violation list"
  contradictions :: "contradiction list"
  actor_tracking :: "(string \<times> string list actor_record) list"
  last_updated :: string

text \<open>
  \<^verbatim>\<open>create_case_session\<close>. The id (a digest of the name and the time) and the
  timestamps come from outside.
\<close>

definition create_case_session :: "string \<Rightarrow> string \<Rightarrow> string \<Rightarrow> string \<times> entities_dict case_data" where
  "create_case_session new_id now name =
     (new_id,
      \<lparr>case_id = new_id, case_name = name, created_date = now,
       documents = [], timeline = [],
       entities = [(''judges'', PySet {||}), (''attorneys'', PySet {||}),
                   (''caseworkers'', PySet {||}), (''children'', PySet {||}),
                   (''case_numbers'', PySet {||}), (''courts'', PySet {||})],
       violations = [], contradictions = [], actor_tracking = [],
       last_updated = now\<rparr>)"

text \<open>\<^verbatim>\<open>legal_analysis.get('document_type', {}).get('type', 'unknown')\<close>.\<close>

definition doc_type_of :: "legal_analysis \<Rightarrow> string" where
  "doc_type_of la =
     (case document_type la of
        None \<Rightarrow> ''unknown''
      | Some info \<Rightarrow> (case dt_type info of None \<Rightarrow> ''unknown'' | Some t \<Rightarrow> t))"

text \<open>The list under one kind of \<^verbatim>\<open>legal_analysis['legal_entities']\<close>, if both keys are there.\<close>

definition entity_list :: "legal_analysis \<Rightarrow> string \<Rightarrow> string list option" where
  "entity_list la kind = (case legal_entities la of None \<Rightarrow> None | Some ents \<Rightarrow> map_of ents kind)"

text \<open>The strings a document lists under one kind: none when a key is missing.\<close>

definition entity_strings :: "legal_analysis \<Rightarrow> string \<Rightarrow> string list" where
  "entity_strings la kind = (case entity_list la kind of None \<Rightarrow> [] | Some strs \<Rightarrow> strs)"

section \<open>CaseManager.add_document_to_case\<close>

text \<open>
  The loop over \<^verbatim>\<open>entities.items()\<close>. A kind that is not a key of the case's entities is
  passed over. A set is updated; anything else is concatenated with the values and made
  a set, which for a \<^verbatim>\<open>str\<close> is a \<^verbatim>\<open>TypeError\<close>.
\<close>

fun merge_entities :: "entities_dict \<Rightarrow> (string \<times> string list) list \<Rightarrow> py_error + entities_dict" where
  "merge_entities ents [] = Inr ents"
| "merge_entities ents ((entity_type, vals) # rest) =
     (case map_of ents entity_type of
        None \<Rightarrow> merge_entities ents rest
      | Some (PySet s) \<Rightarrow>
          merge_entities (dict_set ents entity_type (PySet (s |\<union>| fset_of_list vals))) rest
      | Some (PyList xs) \<Rightarrow>
          merge_entities (dict_set ents entity_type (PySet (fset_of_list (xs @ vals)))) rest
      | Some (PyStr x) \<Rightarrow> Inl TypeError)"

definition stamp :: "string \<Rightarrow> string \<Rightarrow> violation \<Rightarrow> violation" where
  "stamp h name v = v\<lparr>document_hash := Some h, document_name := Some name\<rparr>"

text \<open>
  The violations are stamped in place, so the analysis kept in the document entry holds
  the stamped violations too. \<open>now\<close> and \<open>now'\<close> are the two readings of the clock.
\<close>

definition add_document_to_case ::
  "string \<Rightarrow> string \<Rightarrow> entities_dict case_data \<Rightarrow> string \<Rightarrow> document_analysis \<Rightarrow> legal_analysis
     \<Rightarrow> py_error + entities_dict case_data" where
  "add_document_to_case now now' case_data h da la =
     (let name = (case analysis_filename da of None \<Rightarrow> ''Unknown'' | Some f \<Rightarrow> f);
          stamped = (case potential_violations la of None \<Rightarrow> [] | Some vs \<Rightarrow> map (stamp h name) vs);
          la' = (case potential_violations la of
                   None \<Rightarrow> la | Some vs \<Rightarrow> la\<lparr>potential_violations := Some stamped\<rparr>);
          doc = \<lparr>pdf_hash = h, upload_date = now, doc_analysis = da,
                 doc_legal_analysis = la', filename = name\<rparr>
      in case (case legal_entities la of
                 None \<Rightarrow> Inr (entities case_data)
               | Some ents \<Rightarrow> merge_entities (entities case_data) ents) of
           Inl e \<Rightarrow> Inl e
         | Inr ents' \<Rightarrow>
             Inr (case_data\<lparr>documents := dict_set (documents case_data) h doc,
                            entities := ents',
                            violations := violations case_data @ stamped,
                            last_updated := now'\<rparr>))"

section \<open>CaseManager.generate_timeline\<close>

definition make_event :: "string \<Rightarrow> doc_entry \<Rightarrow> string \<Rightarrow> datetime \<Rightarrow> timeline_event" where
  "make_event h doc ds parsed =
     \<lparr>date = Some (Datetime parsed), date_str = ds, document = filename doc,
      event_document_hash = h,
      event_document_type = doc_type_of (doc_legal_analysis doc),
      event_context = ''Referenced in '' @ filename doc\<rparr>"

text \<open>The events of one document: one for each of its date strings that parses.\<close>

definition doc_events :: "string \<times> doc_entry \<Rightarrow> timeline_event list" where
  "doc_events item =
     (case entity_list (doc_legal_analysis (snd item)) ''dates'' of
        None \<Rightarrow> []
      | Some ds \<Rightarrow>
          concat (map (\<lambda>s. case parse_date s of
                              None \<Rightarrow> []
                            | Some parsed \<Rightarrow> [make_event (fst item) (snd item) s parsed]) ds))"

text \<open>
  The sort key \<^verbatim>\<open>x['date'] if x['date'] else datetime.min\<close>: a datetime, compared as
  the tuple of its fields, or a non-empty string.
\<close>

datatype sort_key = KDate "int \<times> int \<times> int" | KStr string

definition event_key :: "timeline_event \<Rightarrow> sort_key" where
  "event_key e =
     (case date e of
        None \<Rightarrow> KDate (1, 1, 1)
      | Some (Datetime d) \<Rightarrow> KDate (date_tuple d)
      | Some (DateStr x) \<Rightarrow> if x = [] then KDate (1, 1, 1) else KStr x)"

definition is_date_key :: "sort_key \<Rightarrow> bool" where
  "is_date_key k = (case k of KDate t \<Rightarrow> True | KStr x \<Rightarrow> False)"

definition key_date :: "sort_key \<Rightarrow> int \<times> int \<times> int" where
  "key_date k = (case k of KDate t \<Rightarrow> t | KStr x \<Rightarrow> (1, 1, 1))"

definition key_str :: "sort_key \<Rightarrow> string" where
  "key_str k = (case k of KDate t \<Rightarrow> [] | KStr x \<Rightarrow> x)"

text \<open>
  \<^verbatim>\<open>list.sort(key=...)\<close> on the events: a stable sort when the keys are all datetimes
  or all strings. A datetime and a string do not compare, and a sort of a list that
  holds both has to compare such a pair: it raises \<^verbatim>\<open>TypeError\<close>.
\<close>

definition sort_events :: "timeline_event list \<Rightarrow> py_error + timeline_event list" where
  "sort_events evs =
     (if list_all (\<lambda>e. is_date_key (event_key e)) evs
      then Inr (sort_key (\<lambda>e. key_date (event_key e)) evs)
      else if list_all (\<lambda>e. \<not> is_date_key (event_key e)) evs
      then Inr (sort_key (\<lambda>e. key_str (event_key e)) evs)
      else Inl TypeError)"

definition timeline_events :: "(string \<times> doc_entry) list \<Rightarrow> timeline_event list" where
  "timeline_events docs = concat (map doc_events docs)"

definition generate_timeline :: "'e case_data \<Rightarrow> py_error + 'e case_data \<times> timeline_event list" where
  "generate_timeline case_data =
     (case sort_events (timeline_events (documents case_data)) of
        Inl e \<Rightarrow> Inl e
      | Inr evs \<Rightarrow> Inr (case_data\<lparr>timeline := evs\<rparr>, evs))"

section \<open>CaseManager.detect_contradictions\<close>

record doc_ref =
  ref_document :: string
  ref_hash :: string

text \<open>\<^verbatim>\<open>if k not in d: d[k] = []\<close> and then \<^verbatim>\<open>d[k].append(v)\<close>.\<close>

definition append_to :: "('k \<times> 'v list) list \<Rightarrow> 'k \<Rightarrow> 'v \<Rightarrow> ('k \<times> 'v list) list" where
  "append_to d k v = dict_set d k ((case map_of d k of None \<Rightarrow> [] | Some vs \<Rightarrow> vs) @ [v])"

text \<open>
  The strings of one entity kind with the document that lists each, in the order in
  which the two nested loops over the documents and their strings visit them.
\<close>

definition listings :: "string \<Rightarrow> (string \<times> doc_entry) list \<Rightarrow> (string \<times> doc_ref) list" where
  "listings kind docs =
     concat (map (\<lambda>item.
         map (\<lambda>s. (s, \<lparr>ref_document = filename (snd item), ref_hash = fst item\<rparr>))
           (entity_strings (doc_legal_analysis (snd item)) kind))
       docs)"

text \<open>
  The dict from each string of one entity kind to the documents that list it, as the
  two loops over the documents build it (\<^verbatim>\<open>all_dates\<close> for the dates, which nothing reads
  afterwards, and \<^verbatim>\<open>case_numbers\<close>).
\<close>

definition collect_refs :: "string \<Rightarrow> (string \<times> doc_entry) list \<Rightarrow> (string \<times> doc_ref list) list" where
  "collect_refs kind docs =
     foldl (\<lambda>acc item.
              case entity_list (doc_legal_analysis (snd item)) kind of
                None \<Rightarrow> acc
              | Some strs \<Rightarrow>
                  foldl (\<lambda>acc' s. append_to acc' s
                           \<lparr>ref_document = filename (snd item), ref_hash = fst item\<rparr>) acc strs)
       [] docs"

text \<open>The document types of the listed documents; \<^verbatim>\<open>documents[doc_hash]\<close> may raise.\<close>

fun lookup_types :: "(string \<times> doc_entry) list \<Rightarrow> doc_ref list \<Rightarrow> py_error + string list" where
  "lookup_types docs [] = Inr []"
| "lookup_types docs (r # rs) =
     (case map_of docs (ref_hash r) of
        None \<Rightarrow> Inl KeyError
      | Some doc \<Rightarrow>
          (case lookup_types docs rs of
             Inl e \<Rightarrow> Inl e
           | Inr tys \<Rightarrow> Inr (doc_type_of (doc_legal_analysis doc) # tys)))"

definition inconsistency :: "string \<Rightarrow> doc_ref list \<Rightarrow> contradiction" where
  "inconsistency num_str refs =
     \<lparr>contradiction_type = ''case_number_inconsistency'',
      contradiction_severity = ''medium'',
      contradiction_description =
        ''Case number '' @ num_str @ '' appears in documents of different types'',
      contradiction_documents = map ref_document refs,
      case_number = num_str\<rparr>"

text \<open>What the body of the last loop appends for one case number.\<close>

definition flag_case_number ::
  "(string \<times> doc_entry) list \<Rightarrow> string \<times> doc_ref list \<Rightarrow> py_error + contradiction list" where
  "flag_case_number docs item =
     (if 1 < length (snd item)
      then (case lookup_types docs (snd item) of
              Inl e \<Rightarrow> Inl e
            | Inr tys \<Rightarrow>
                if 1 < card (set tys) then Inr [inconsistency (fst item) (snd item)] else Inr [])
      else Inr [])"

fun flag_all ::
  "(string \<times> doc_entry) list \<Rightarrow> (string \<times> doc_ref list) list \<Rightarrow> py_error + contradiction list" where
  "flag_all docs [] = Inr []"
| "flag_all docs (item # items) =
     (case flag_case_number docs item of
        Inl e \<Rightarrow> Inl e
      | Inr cs \<Rightarrow> (case flag_all docs items of Inl e \<Rightarrow> Inl e | Inr rest \<Rightarrow> Inr (cs @ rest)))"

definition detect_contradictions :: "'e case_data \<Rightarrow> py_error + 'e case_data \<times> contradiction list" where
  "detect_contradictions case_data =
     (let all_dates = collect_refs ''dates'' (documents case_data);
          case_numbers = collect_refs ''case_numbers'' (documents case_data)
      in case flag_all (documents case_data) case_numbers of
           Inl e \<Rightarrow> Inl e
         | Inr cs \<Rightarrow> Inr (case_data\<lparr>contradictions := cs\<rparr>, cs))"

section \<open>CaseManager.track_repeat_actors\<close>

text \<open>\<^verbatim>\<open>severity_scores.get(violation.get('severity', 'low'), 1)\<close>.\<close>

definition severity_points :: "violation \<Rightarrow> int" where
  "severity_points v = get_severity_score (case severity v of None \<Rightarrow> ''low'' | Some s \<Rightarrow> s)"

text \<open>The body of the loop over the judges: the entry is made if it is new, then updated.\<close>

definition track_judge ::
  "violation \<Rightarrow> string \<Rightarrow> (string \<times> string fset actor_record) list \<Rightarrow> string
     \<Rightarrow> (string \<times> string fset actor_record) list" where
  "track_judge v name tracking judge =
     (let entry = (case map_of tracking judge of
                     None \<Rightarrow> \<lparr>actor_type = ''judge'', actor_violations = [],
                               actor_documents = {||}, actor_severity_score = 0\<rparr>
                   | Some a \<Rightarrow> a)
      in dict_set tracking judge
           (entry\<lparr>actor_violations := actor_violations entry @ [v],
                  actor_documents := finsert name (actor_documents entry),
                  actor_severity_score := actor_severity_score entry + severity_points v\<rparr>))"

definition track_violation ::
  "(string \<times> doc_entry) list \<Rightarrow> (string \<times> string fset actor_record) list \<Rightarrow> violation
     \<Rightarrow> (string \<times> string fset actor_record) list" where
  "track_violation docs tracking v =
     (case map_of docs (case document_hash v of None \<Rightarrow> [] | Some h \<Rightarrow> h) of
        None \<Rightarrow> tracking
      | Some doc \<Rightarrow>
          foldl (track_judge v (filename doc)) tracking
            (case entity_list (doc_legal_analysis doc) ''judge_names'' of
               None \<Rightarrow> [] | Some judges \<Rightarrow> judges))"

text \<open>
  \<open>iter_order s\<close> is the order in which Python iterates over the set \<open>s\<close>, which
  \<^verbatim>\<open>list(s)\<close> returns: it is fixed by the run, not by the language.
\<close>

definition listed :: "(string fset \<Rightarrow> string list) \<Rightarrow> string fset actor_record \<Rightarrow> string list actor_record" where
  "listed iter_order a =
     \<lparr>actor_type = actor_type a, actor_violations = actor_violations a,
      actor_documents = iter_order (actor_documents a),
      actor_severity_score = actor_severity_score a\<rparr>"

definition track_repeat_actors ::
  "(string fset \<Rightarrow> string list) \<Rightarrow> 'e case_data
     \<Rightarrow> 'e case_data \<times> (string \<times> string list actor_record) list" where
  "track_repeat_actors iter_order case_data =
     (let tracking = foldl (track_violation (documents case_data)) [] (violations case_data);
          result = map (\<lambda>item. (fst item, listed iter_order (snd item))) tracking
      in (case_data\<lparr>actor_tracking := result\<rparr>, result))"

section \<open>CaseManager: saving and loading\<close>

text \<open>
  The dict of the entities is an object of its own: the case holds a reference to it,
  and \<^verbatim>\<open>case_data.copy()\<close>, a shallow copy, holds the same reference. The store maps the
  address of such an object to its contents.
\<close>

type_synonym addr = nat

type_synonym store = "addr \<Rightarrow> entities_dict"

definition shallow_copy :: "addr case_data \<Rightarrow> addr case_data" where
  "shallow_copy case_data = case_data"

text \<open>The view of a case in a store: the case with the dict its reference points to.\<close>

definition in_store :: "store \<Rightarrow> addr case_data \<Rightarrow> entities_dict" where
  "in_store st case_data = st (entities case_data)"

text \<open>\<^verbatim>\<open>_prepare_for_serialization\<close>: the assignments go to the dict the reference points to.\<close>

definition listify :: "(string fset \<Rightarrow> string list) \<Rightarrow> entities_dict \<Rightarrow> entities_dict" where
  "listify iter_order ents =
     foldl (\<lambda>d item. case snd item of
                        PySet s \<Rightarrow> dict_set d (fst item) (PyList (iter_order s))
                      | _ \<Rightarrow> d) ents ents"

definition prepare_for_serialization ::
  "(string fset \<Rightarrow> string list) \<Rightarrow> store \<Rightarrow> addr case_data \<Rightarrow> store" where
  "prepare_for_serialization iter_order st data =
     st(entities data := listify iter_order (st (entities data)))"

text \<open>
  The JSON document, as far as the entities, the violations and the timeline go (the
  other keys are written and read back as well). A violation holds strings, integers
  and \<^verbatim>\<open>None\<close> only and is read back as it was written. \<^verbatim>\<open>json.dump\<close> calls its
  \<^verbatim>\<open>default\<close>, here \<^verbatim>\<open>str\<close>, on every value that is not JSON: \<open>default_str\<close> is \<^verbatim>\<open>str\<close>
  on a set, \<open>str_datetime\<close> is \<^verbatim>\<open>str\<close> on the datetime of a timeline event.
\<close>

datatype json_value = JArray "string list" | JString string

record 'e snapshot =
  snap_entities :: 'e
  snap_violations :: "violation list"
  snap_timeline :: "timeline_event list"

definition json_dump_value :: "(string fset \<Rightarrow> string) \<Rightarrow> entity_value \<Rightarrow> json_value" where
  "json_dump_value default_str v =
     (case v of PyList xs \<Rightarrow> JArray xs | PyStr x \<Rightarrow> JString x | PySet s \<Rightarrow> JString (default_str s))"

definition json_dump_event :: "timeline_event \<Rightarrow> timeline_event" where
  "json_dump_event e =
     (case date e of
        Some (Datetime d) \<Rightarrow> e\<lparr>date := Some (DateStr (str_datetime d))\<rparr>
      | _ \<Rightarrow> e)"

definition json_dump ::
  "(string fset \<Rightarrow> string) \<Rightarrow> store \<Rightarrow> addr case_data \<Rightarrow> (string \<times> json_value) list snapshot" where
  "json_dump default_str st data =
     \<lparr>snap_entities = map (\<lambda>item. (fst item, json_dump_value default_str (snd item)))
                         (st (entities data)),
      snap_violations = violations data,
      snap_timeline = map json_dump_event (timeline data)\<rparr>"

text \<open>\<^verbatim>\<open>save_case_session\<close>: the store afterwards and the file written.\<close>

definition save_case_session ::
  "(string fset \<Rightarrow> string list) \<Rightarrow> (string fset \<Rightarrow> string) \<Rightarrow> store \<Rightarrow> addr case_data
     \<Rightarrow> store \<times> (string \<times> json_value) list snapshot" where
  "save_case_session iter_order default_str st case_data =
     (let data = shallow_copy case_data;
          st' = prepare_for_serialization iter_order st data
      in (st', json_dump default_str st' data))"

definition json_load_value :: "json_value \<Rightarrow> entity_value" where
  "json_load_value j = (case j of JArray xs \<Rightarrow> PyList xs | JString x \<Rightarrow> PyStr x)"

definition json_load :: "(string \<times> json_value) list snapshot \<Rightarrow> entities_dict snapshot" where
  "json_load file =
     \<lparr>snap_entities = map (\<lambda>item. (fst item, json_load_value (snd item))) (snap_entities file),
      snap_violations = snap_violations file,
      snap_timeline = snap_timeline file\<rparr>"

text \<open>\<^verbatim>\<open>_prepare_from_serialization\<close>, on the dict just read.\<close>

definition setify :: "entities_dict \<Rightarrow> entities_dict" where
  "setify ents =
     foldl (\<lambda>d item. case snd item of
                        PyList xs \<Rightarrow> dict_set d (fst item) (PySet (fset_of_list xs))
                      | _ \<Rightarrow> d) ents ents"

definition prepare_from_serialization :: "entities_dict snapshot \<Rightarrow> entities_dict snapshot" where
  "prepare_from_serialization data = data\<lparr>snap_entities := setify (snap_entities data)\<rparr>"

text \<open>\<^verbatim>\<open>load_case_session\<close>: \<open>None\<close> when there is no file for the case.\<close>

definition load_case_session ::
  "(string \<times> json_value) list snapshot option \<Rightarrow> entities_dict snapshot option" where
  "load_case_session file =
     (case file of None \<Rightarrow> None | Some j \<Rightarrow> Some (prepare_from_serialization (json_load j)))"

text \<open>The members of an entity value, as a set.\<close>

definition members :: "entity_value \<Rightarrow> string set" where
  "members v = (case v of PySet s \<Rightarrow> fset s | PyList xs \<Rightarrow> set xs | PyStr x \<Rightarrow> {})"

section \<open>ViolationDetector.analyze_timeline_violations\<close>

record delay_violation =
  delay_type :: string
  delay_severity :: string
  delay_severity_score :: int
  delay_description :: string
  delay_context :: string
  time_difference :: int
  events :: "timeline_event list"

definition excessive_delay :: "timeline_event \<Rightarrow> timeline_event \<Rightarrow> int \<Rightarrow> delay_violation" where
  "excessive_delay previous_event current_event days =
     \<lparr>delay_type = ''excessive_delay'',
      delay_severity = ''medium'',
      delay_severity_score = 2,
      delay_description = ''Excessive delay ('' @ str_int days @ '' days) between events'',
      delay_context = ''From '' @ document previous_event @ '' to '' @ document current_event,
      time_difference = days,
      events = [previous_event, current_event]\<rparr>"

text \<open>
  The body of the loop, for two events next to each other: the dates are subtracted
  when both are true, and the subtraction may raise.
\<close>

definition check_gap :: "timeline_event \<Rightarrow> timeline_event \<Rightarrow> py_error + delay_violation list" where
  "check_gap previous_event current_event =
     (if date_truthy (date current_event) \<and> date_truthy (date previous_event)
      then (case date_minus (date current_event) (date previous_event) of
              Inl e \<Rightarrow> Inl e
            | Inr days \<Rightarrow>
                Inr (if 180 < days then [excessive_delay previous_event current_event days]
                     else []))
      else Inr [])"

text \<open>The loop over the indices; an error ends it.\<close>

fun gap_loop ::
  "timeline_event list \<Rightarrow> nat list \<Rightarrow> delay_violation list \<Rightarrow> py_error + delay_violation list" where
  "gap_loop evs [] timeline_violations = Inr timeline_violations"
| "gap_loop evs (i # rest) timeline_violations =
     (case check_gap (evs ! (i - 1)) (evs ! i) of
        Inl e \<Rightarrow> Inl e
      | Inr found \<Rightarrow> gap_loop evs rest (timeline_violations @ found))"

definition analyze_timeline_violations :: "timeline_event list \<Rightarrow> py_error + delay_violation list" where
  "analyze_timeline_violations evs =
     (if length evs < 2 then Inr [] else gap_loop evs [1..<length evs] [])"

section \<open>An example case\<close>

text \<open>
  Three documents, as \<^verbatim>\<open>comprehensive_legal_analysis\<close> could return them, added one
  after the other to a new case: an order and two motions. The order and the first
  motion share the case number A-1, the two motions share B-2.
\<close>

definition example_order :: legal_analysis where
  "example_order =
     \<lparr>legal_entities = Some [(''case_numbers'', [''A-1'']),
                             (''dates'', [''01/15/2023'', ''not a date'']),
                             (''judge_names'', [''Smith''])],
      document_type = Some \<lparr>dt_type = Some ''order'', confidence = Some 1,
                             all_scores = Some [(''order'', 2)]\<rparr>,
      potential_violations =
        Some [\<lparr>vtype = ''due process violation'', description = None, severity = Some ''high'',
               vcontext = Some ''a due process violation'', pattern_matched = None,
               position = None, severity_score = None,
               document_hash = None, document_name = None\<rparr>]\<rparr>"

definition example_motion :: legal_analysis where
  "example_motion =
     \<lparr>legal_entities = Some [(''case_numbers'', [''A-1'', ''B-2'']),
                             (''dates'', [''March 3, 2022''])],
      document_type = Some \<lparr>dt_type = Some ''motion'', confidence = Some 1,
                             all_scores = Some [(''motion'', 1)]\<rparr>,
      potential_violations = Some []\<rparr>"

definition example_reply :: legal_analysis where
  "example_reply =
     \<lparr>legal_entities = Some [(''case_numbers'', [''B-2'']), (''dates'', [''2021-06-01''])],
      document_type = Some \<lparr>dt_type = Some ''motion'', confidence = Some 1,
                             all_scores = Some [(''motion'', 3)]\<rparr>,
      potential_violations = Some []\<rparr>"

definition example_case :: "py_error + entities_dict case_data" where
  "example_case =
     (case add_document_to_case ''t1'' ''t2'' (snd (create_case_session ''c0ffee00'' ''t0'' ''Doe''))
             ''h1'' \<lparr>analysis_filename = Some ''order.pdf''\<rparr> example_order of
        Inl e \<Rightarrow> Inl e
      | Inr c1 \<Rightarrow>
          (case add_document_to_case ''t3'' ''t4'' c1
                  ''h2'' \<lparr>analysis_filename = Some ''motion.pdf''\<rparr> example_motion of
             Inl e \<Rightarrow> Inl e
           | Inr c2 \<Rightarrow>
               add_document_to_case ''t5'' ''t6'' c2
                 ''h3'' \<lparr>analysis_filename = Some ''reply.pdf''\<rparr> example_reply))"

text \<open>Two timeline events 200 days apart, as \<^verbatim>\<open>generate_timeline\<close> builds them.\<close>

definition example_filed :: timeline_event where
  "example_filed =
     \<lparr>date = Some (Datetime \<lparr>year = 2023, month = 1, day = 1\<rparr>), date_str = ''01/01/2023'',
      document = ''a.pdf'', event_document_hash = ''h1'', event_document_type = ''order'',
      event_context = ''Referenced in a.pdf''\<rparr>"

definition example_heard :: timeline_event where
  "example_heard =
     \<lparr>date = Some (Datetime \<lparr>year = 2023, month = 7, day = 20\<rparr>), date_str = ''07/20/2023'',
      document = ''b.pdf'', event_document_hash = ''h2'', event_document_type = ''motion'',
      event_context = ''Referenced in b.pdf''\<rparr>"

text \<open>
  A case as the caller of \<^verbatim>\<open>save_case_session\<close> holds it: the dict of its entities is
  the object at address 7 of the store, with two sets and a list as its values.
  \<open>example_repr\<close> stands for \<^verbatim>\<open>str\<close> on a set.
\<close>

definition example_store :: store where
  "example_store =
     (\<lambda>a. if a = 7
          then [(''judges'', PySet {||}),
                (''case_numbers'', PySet {|''A-1'', ''B-2''|}),
                (''courts'', PyList [''Family Court'', ''Family Court''])]
          else [])"

definition example_held :: "addr case_data" where
  "example_held =
     \<lparr>case_id = ''c0ffee00'', case_name = ''Doe'', created_date = ''t0'',
      documents = [], timeline = [example_filed, example_heard], entities = 7,
      violations = [\<lparr>vtype = ''due process violation'', description = None,
                     severity = Some ''high'', vcontext = Some ''a due process violation'',
                     pattern_matched = None, position = None, severity_score = None,
                     document_hash = Some ''h1'', document_name = Some ''order.pdf''\<rparr>],
      contradictions = [], actor_tracking = [], last_updated = ''t1''\<rparr>"

definition example_repr :: "string fset \<Rightarrow> string" where
  "example_repr S = ''{...}''"

section \<open>Timeline gaps\<close>

text \<open>The loop over the indices visits the pairs of neighbours, in order.\<close>

lemma adjacent_pairs:
  "map (\<lambda>i. f (evs ! (i - 1)) (evs ! i)) [1..<length evs] = map (\<lambda>(p, c). f p c) (zip evs (tl evs))"
proof (rule nth_equalityI)
  show "length (map (\<lambda>i. f (evs ! (i - 1)) (evs ! i)) [1..<length evs])
          = length (map (\<lambda>(p, c). f p c) (zip evs (tl evs)))"
    by simp
next
  fix i assume "i < length (map (\<lambda>i. f (evs ! (i - 1)) (evs ! i)) [1..<length evs])"
  then have i: "i < length evs - 1" by simp
  then have "tl evs ! i = evs ! Suc i" by (simp add: nth_tl)
  with i show "map (\<lambda>i. f (evs ! (i - 1)) (evs ! i)) [1..<length evs] ! i
                 = map (\<lambda>(p, c). f p c) (zip evs (tl evs)) ! i"
    by simp
qed

lemma check_gap_error: "check_gap p c = Inl e \<Longrightarrow> e = TypeError"
  by (auto simp: check_gap_def date_minus_def
      split: if_splits sum.splits option.splits date_value.splits)

lemma check_gap_datetimes:
  "date p = Some (Datetime dp) \<Longrightarrow> date c = Some (Datetime dc) \<Longrightarrow>
   check_gap p c = Inr (if 180 < days_between dc dp
                        then [excessive_delay p c (days_between dc dp)] else [])"
  by (simp add: check_gap_def date_truthy_def date_minus_def)

lemma check_gap_missing: "date p = None \<or> date c = None \<Longrightarrow> check_gap p c = Inr []"
  by (auto simp: check_gap_def date_truthy_def)

lemma check_gap_strings:
  "date p = Some (DateStr x) \<Longrightarrow> date c = Some (DateStr y) \<Longrightarrow> x \<noteq> [] \<Longrightarrow> y \<noteq> [] \<Longrightarrow>
   check_gap p c = Inl TypeError"
  by (simp add: check_gap_def date_truthy_def date_minus_def)

lemma gap_loop_returns:
  "list_all (\<lambda>i. check_gap (evs ! (i - 1)) (evs ! i) = Inr (g i)) idx \<Longrightarrow>
   gap_loop evs idx acc = Inr (acc @ concat (map g idx))"
  by (induction idx arbitrary: acc) simp_all

lemma gap_loop_raises:
  "i \<in> set idx \<Longrightarrow> check_gap (evs ! (i - 1)) (evs ! i) = Inl TypeError \<Longrightarrow>
   gap_loop evs idx acc = Inl TypeError"
proof (induction idx arbitrary: acc)
  case Nil
  then show ?case by simp
next
  case (Cons j idx)
  show ?case
  proof (cases "check_gap (evs ! (j - 1)) (evs ! j)")
    case (Inl e)
    then show ?thesis using check_gap_error [OF Inl] by simp
  next
    case (Inr found)
    with Cons.prems have "i \<in> set idx" by auto
    from Cons.IH [OF this Cons.prems(2)] Inr show ?thesis by simp
  qed
qed

text \<open>
  On a timeline whose dates are datetimes or missing, as \<^verbatim>\<open>generate_timeline\<close> builds it,
  the function returns, for the pairs of neighbours in order, one violation for each
  pair whose dates are both there and more than 180 days apart.
\<close>

lemma analyze_timeline_violations_gaps:
  assumes "list_all (\<lambda>e. \<forall>x. date e \<noteq> Some (DateStr x)) evs"
  shows "analyze_timeline_violations evs
           = Inr (concat (map (\<lambda>(p, c).
                    case date p of
                      Some (Datetime dp) \<Rightarrow>
                        (case date c of
                           Some (Datetime dc) \<Rightarrow>
                             if 180 < days_between dc dp
                             then [\<lparr>delay_type = ''excessive_delay'', delay_severity = ''medium'',
                                    delay_severity_score = 2,
                                    delay_description =
                                      ''Excessive delay ('' @ str_int (days_between dc dp)
                                        @ '' days) between events'',
                                    delay_context = ''From '' @ document p @ '' to '' @ document c,
                                    time_difference = days_between dc dp, events = [p, c]\<rparr>]
                             else []
                         | _ \<Rightarrow> [])
                    | _ \<Rightarrow> []) (zip evs (tl evs))))"
    (is "_ = Inr (concat (map (\<lambda>(p, c). ?g p c) _))")
proof -
  have g: "check_gap p c = Inr (?g p c)" if "p \<in> set evs" "c \<in> set evs" for p c
  proof -
    from assms that have np: "\<forall>x. date p \<noteq> Some (DateStr x)" and nc: "\<forall>x. date c \<noteq> Some (DateStr x)"
      by (auto simp: list_all_iff)
    show ?thesis
    proof (cases "date p")
      case None
      then show ?thesis by (simp add: check_gap_missing)
    next
      case (Some vp)
      with np obtain dp where dp: "date p = Some (Datetime dp)" by (cases vp) auto
      show ?thesis
      proof (cases "date c")
        case None
        then show ?thesis by (simp add: check_gap_missing dp)
      next
        case (Some vc)
        with nc obtain dc where dc: "date c = Some (Datetime dc)" by (cases vc) auto
        show ?thesis by (simp add: check_gap_datetimes [OF dp dc] dp dc excessive_delay_def)
      qed
    qed
  qed
  show ?thesis
  proof (cases "length evs < 2")
    case True
    then have "evs = [] \<or> tl evs = []" by (cases evs) auto
    then have z: "zip evs (tl evs) = []" by auto
    show ?thesis unfolding z analyze_timeline_violations_def using True by simp
  next
    case False
    have "check_gap (evs ! (i - 1)) (evs ! i) = Inr (?g (evs ! (i - 1)) (evs ! i))"
      if "i \<in> set [1..<length evs]" for i
    proof (rule g)
      from that show "evs ! (i - 1) \<in> set evs" by (intro nth_mem) auto
      from that show "evs ! i \<in> set evs" by (intro nth_mem) simp
    qed
    then have "list_all (\<lambda>i. check_gap (evs ! (i - 1)) (evs ! i) = Inr (?g (evs ! (i - 1)) (evs ! i)))
            [1..<length evs]"
      unfolding list_all_iff by blast
    from gap_loop_returns [OF this, of "[]"]
    have loop: "gap_loop evs [1..<length evs] []
                  = Inr (concat (map (\<lambda>i. ?g (evs ! (i - 1)) (evs ! i)) [1..<length evs]))"
      by (simp only: append_Nil)
    have pairs: "map (\<lambda>i. ?g (evs ! (i - 1)) (evs ! i)) [1..<length evs]
                   = map (\<lambda>(p, c). ?g p c) (zip evs (tl evs))"
      by (rule adjacent_pairs)
    from False show ?thesis
      unfolding analyze_timeline_violations_def by (simp only: loop pairs if_False)
  qed
qed

text \<open>What a saved and reloaded case holds as its timeline.\<close>

lemma reloaded_timeline:
  "map_option snap_timeline (load_case_session (Some (snd (save_case_session io ds st c))))
     = Some (map json_dump_event (timeline c))"
  by (simp add: load_case_session_def prepare_from_serialization_def json_load_def
      save_case_session_def Let_def shallow_copy_def json_dump_def)

lemma str_datetime_not_empty: "str_datetime d \<noteq> []"
  by (simp add: str_datetime_def)

text \<open>
  A timeline of two or more events with their dates, saved and read back, makes
  \<^verbatim>\<open>analyze_timeline_violations\<close> raise \<^verbatim>\<open>TypeError\<close>.
\<close>

lemma analyze_reloaded_raises:
  assumes "list_all (\<lambda>e. \<exists>d. date e = Some (Datetime d)) evs" and "2 \<le> length evs"
  shows "analyze_timeline_violations (map json_dump_event evs) = Inl TypeError"
proof -
  let ?evs = "map json_dump_event evs"
  from assms(2) have l0: "0 < length evs" and l1: "1 < length evs" by auto
  note nth = assms(1) [unfolded list_all_length, rule_format]
  have d0: "\<exists>d. date (evs ! 0) = Some (Datetime d)" by (rule nth [OF l0])
  have d1: "\<exists>d. date (evs ! 1) = Some (Datetime d)" by (rule nth [OF l1])
  from d0 obtain a where a: "date (json_dump_event (evs ! 0)) = Some (DateStr (str_datetime a))"
    by (auto simp: json_dump_event_def)
  from d1 obtain b where b: "date (json_dump_event (evs ! 1)) = Some (DateStr (str_datetime b))"
    by (auto simp: json_dump_event_def)
  have e0: "?evs ! (1 - 1) = json_dump_event (evs ! 0)" using l0 by simp
  have e1: "?evs ! 1 = json_dump_event (evs ! 1)" using l1 by simp
  have "check_gap (?evs ! (1 - 1)) (?evs ! 1) = Inl TypeError"
    unfolding e0 e1
    by (rule check_gap_strings [OF a b str_datetime_not_empty str_datetime_not_empty])
  moreover have "(1::nat) \<in> set [1..<length ?evs]" using assms(2) by simp
  ultimately have "gap_loop ?evs [1..<length ?evs] [] = Inl TypeError"
    by (rule gap_loop_raises [rotated])
  with assms(2) show ?thesis by (simp add: analyze_timeline_violations_def)
qed

text \<open>
  Claim C7. On the two events 200 days apart \<^verbatim>\<open>analyze_timeline_violations\<close> returns one
  violation of type \<^verbatim>\<open>excessive_delay\<close>, severity \<^verbatim>\<open>medium\<close>, score 2. Once the case that
  holds them as its timeline has been saved and loaded again, the two dates are the
  strings \<^verbatim>\<open>2023-01-01 00:00:00\<close> and \<^verbatim>\<open>2023-07-20 00:00:00\<close>: both are present and 200
  days apart, and the function raises \<^verbatim>\<open>TypeError\<close> where the claim has it return one
  violation. This holds for every case, store and iteration order of sets.
\<close>

theorem analyze_timeline_violations_reloaded:
  "map_sum id (map (\<lambda>v. (delay_type v, delay_severity v, delay_severity_score v, time_difference v)))
     (analyze_timeline_violations [example_filed, example_heard])
     = Inr [(''excessive_delay'', ''medium'', 2, 200)]
   \<and> map_option (\<lambda>r. map date (snap_timeline r))
        (load_case_session (Some (snd (save_case_session io ds st
            (c\<lparr>timeline := [example_filed, example_heard]\<rparr>)))))
     = Some [Some (DateStr ''2023-01-01 00:00:00''), Some (DateStr ''2023-07-20 00:00:00'')]
   \<and> map_option (\<lambda>r. analyze_timeline_violations (snap_timeline r))
        (load_case_session (Some (snd (save_case_session io ds st
            (c\<lparr>timeline := [example_filed, example_heard]\<rparr>)))))
     = Some (Inl TypeError)"
proof -
  have fresh: "map_sum id (map (\<lambda>v. (delay_type v, delay_severity v, delay_severity_score v, time_difference v)))
     (analyze_timeline_violations [example_filed, example_heard])
     = Inr [(''excessive_delay'', ''medium'', 2, 200)]"
    by code_simp
  have dates: "map date (map json_dump_event [example_filed, example_heard])
     = [Some (DateStr ''2023-01-01 00:00:00''), Some (DateStr ''2023-07-20 00:00:00'')]"
    by code_simp
  have raises: "analyze_timeline_violations (map json_dump_event [example_filed, example_heard])
     = Inl TypeError"
    by code_simp
  have load: "load_case_session (Some (snd (save_case_session io ds st
            (c\<lparr>timeline := [example_filed, example_heard]\<rparr>)))) = Some r \<Longrightarrow>
     snap_timeline r = map json_dump_event [example_filed, example_heard]" for r
    using reloaded_timeline [of io ds st "c\<lparr>timeline := [example_filed, example_heard]\<rparr>"]
    by simp
  obtain r where r: "load_case_session (Some (snd (save_case_session io ds st
            (c\<lparr>timeline := [example_filed, example_heard]\<rparr>)))) = Some r"
    by (simp add: load_case_session_def)
  show ?thesis
    unfolding r option.map load [OF r] using fresh dates raises by simp
qed

section \<open>The document classifier\<close>

lemma max_by_score_mem: "max_by_score best rest \<in> set (best # rest)"
  by (induction rest arbitrary: best) (auto split: if_splits)

lemma max_by_score_ge_best: "snd best \<le> snd (max_by_score best rest)"
proof (induction rest arbitrary: best)
  case Nil
  show ?case by simp
next
  case (Cons kv rest)
  have "snd best \<le> snd (if snd best < snd kv then kv else best)" by simp
  also have "\<dots> \<le> snd (max_by_score (if snd best < snd kv then kv else best) rest)"
    by (rule Cons.IH)
  finally show ?case by simp
qed

lemma max_by_score_ge: "kv \<in> set (best # rest) \<Longrightarrow> snd kv \<le> snd (max_by_score best rest)"
proof (induction rest arbitrary: best)
  case Nil
  then show ?case by simp
next
  case (Cons x rest)
  let ?b = "if snd best < snd x then x else best"
  from Cons.prems have "kv = best \<or> kv = x \<or> kv \<in> set rest" by auto
  then show ?case
  proof (elim disjE)
    assume "kv = best"
    then have "snd kv \<le> snd ?b" by simp
    also have "\<dots> \<le> snd (max_by_score ?b rest)" by (rule max_by_score_ge_best)
    finally show ?thesis by simp
  next
    assume "kv = x"
    then have "snd kv \<le> snd ?b" by simp
    also have "\<dots> \<le> snd (max_by_score ?b rest)" by (rule max_by_score_ge_best)
    finally show ?thesis by simp
  next
    assume "kv \<in> set rest"
    then have "kv \<in> set (?b # rest)" by simp
    then have "snd kv \<le> snd (max_by_score ?b rest)" by (rule Cons.IH)
    then show ?thesis by simp
  qed
qed

lemma sum_positive_scores:
  "sum_list (map snd (filter (\<lambda>(t, s). 0 < s) (xs :: (string \<times> nat) list))) = sum_list (map snd xs)"
  by (induction xs) auto

lemma single_positive:
  "distinct (map fst xs) \<Longrightarrow> (t, s) \<in> set xs \<Longrightarrow> 0 < s \<Longrightarrow>
   (\<forall>t' s'. (t', s') \<in> set xs \<and> t' \<noteq> t \<longrightarrow> s' = 0) \<Longrightarrow>
   filter (\<lambda>(t, s). 0 < s) (xs :: (string \<times> nat) list) = [(t, s)]"
proof (induction xs)
  case Nil
  then show ?case by simp
next
  case (Cons x xs)
  obtain a b where x: "x = (a, b)" by (cases x)
  show ?case
  proof (cases "a = t")
    case True
    with Cons.prems x have notin: "t \<notin> fst ` set xs" by simp
    with Cons.prems x True have b: "b = s" by (auto simp: image_iff)
    have "\<forall>p \<in> set xs. \<not> (case p of (t, s) \<Rightarrow> 0 < s)"
    proof
      fix p assume p: "p \<in> set xs"
      obtain t' s' where ps: "p = (t', s')" by (cases p)
      with p notin have "t' \<noteq> t" by (auto simp: image_iff)
      with Cons.prems(4) p ps have "s' = 0" by auto
      with ps show "\<not> (case p of (t, s) \<Rightarrow> 0 < s)" by simp
    qed
    then have "filter (\<lambda>(t, s). 0 < s) xs = []" by (simp add: filter_empty_conv)
    with x True b Cons.prems(3) show ?thesis by simp
  next
    case False
    with Cons.prems x have b0: "b = 0" by auto
    from False Cons.prems x have m: "(t, s) \<in> set xs" by auto
    from Cons.prems have d: "distinct (map fst xs)" by simp
    from Cons.prems(4) have z: "\<forall>t' s'. (t', s') \<in> set xs \<and> t' \<noteq> t \<longrightarrow> s' = 0" by auto
    have "filter (\<lambda>(t, s). 0 < s) xs = [(t, s)]" by (rule Cons.IH [OF d m Cons.prems(3) z])
    with x b0 show ?thesis by simp
  qed
qed

lemma distinct_document_types: "distinct (map fst document_types)"
  by (simp add: document_types_def)

lemma type_scores_eq: "type_scores tl' = filter (\<lambda>(t, s). 0 < s) (scored tl')"
  by (simp add: type_scores_def)

lemma scored_mem: "(t, s) \<in> set (scored tl') \<longleftrightarrow> (\<exists>kws. (t, kws) \<in> set document_types \<and> s = keyword_score tl' kws)"
  by (force simp: scored_def)

lemma scored_keys: "map fst (scored tl') = map fst document_types"
  by (simp add: scored_def case_prod_unfold comp_def)

lemma scored_total:
  "sum_list (map snd (scored tl')) = sum_list (map (\<lambda>(t, kws). keyword_score tl' kws) document_types)"
  by (simp add: scored_def case_prod_unfold comp_def)

lemma unknown_iff:
  "analyze_document_type text = \<lparr>dt_type = Some ''unknown'', confidence = Some 0, all_scores = None\<rparr>
   \<longleftrightarrow> (\<forall>t kws. (t, kws) \<in> set document_types \<longrightarrow> keyword_score (lower text) kws = 0)"
proof -
  have "analyze_document_type text = \<lparr>dt_type = Some ''unknown'', confidence = Some 0, all_scores = None\<rparr>
        \<longleftrightarrow> type_scores (lower text) = []"
    by (simp add: analyze_document_type_def Let_def split: list.splits)
  also have "\<dots> \<longleftrightarrow> (\<forall>p \<in> set (scored (lower text)). snd p = 0)"
    by (auto simp: type_scores_eq filter_empty_conv)
  also have "\<dots> \<longleftrightarrow> (\<forall>t kws. (t, kws) \<in> set document_types \<longrightarrow> keyword_score (lower text) kws = 0)"
    by (auto simp: scored_def)
  finally show ?thesis .
qed

lemma primary_type:
  assumes "(t0, kws0) \<in> set document_types" "0 < keyword_score (lower text) kws0"
  shows "\<exists>t kws. (t, kws) \<in> set document_types
           \<and> dt_type (analyze_document_type text) = Some t
           \<and> (\<forall>t' kws'. (t', kws') \<in> set document_types \<longrightarrow>
                  keyword_score (lower text) kws' \<le> keyword_score (lower text) kws)
           \<and> confidence (analyze_document_type text)
               = Some (of_nat (keyword_score (lower text) kws)
                    / of_nat (sum_list (map (\<lambda>(t, kws). keyword_score (lower text) kws) document_types)))"
proof -
  let ?tl = "lower text"
  from assms have "(t0, keyword_score ?tl kws0) \<in> set (type_scores ?tl)"
    by (auto simp: type_scores_eq scored_mem)
  then obtain kv rest where sc: "type_scores ?tl = kv # rest" by (cases "type_scores ?tl") auto
  let ?p = "max_by_score kv rest"
  have "?p \<in> set (type_scores ?tl)" using max_by_score_mem [of kv rest] sc by simp
  then have "(fst ?p, snd ?p) \<in> set (scored ?tl)" by (auto simp: type_scores_eq)
  then have "\<exists>kws. (fst ?p, kws) \<in> set document_types \<and> snd ?p = keyword_score ?tl kws"
    unfolding scored_mem .
  then obtain kws where kws: "(fst ?p, kws) \<in> set document_types" "snd ?p = keyword_score ?tl kws"
    by blast
  have mx: "keyword_score ?tl kws' \<le> keyword_score ?tl kws" if "(t', kws') \<in> set document_types" for t' kws'
  proof (cases "0 < keyword_score ?tl kws'")
    case True
    with that have "(t', keyword_score ?tl kws') \<in> set (kv # rest)"
      by (auto simp: sc [symmetric] type_scores_eq scored_mem)
    from max_by_score_ge [OF this] kws show ?thesis by simp
  next
    case False
    then show ?thesis by simp
  qed
  have tot: "sum_list (map snd (type_scores ?tl)) = sum_list (map (\<lambda>(t, kws). keyword_score ?tl kws) document_types)"
    by (simp add: type_scores_eq sum_positive_scores scored_total)
  have res: "analyze_document_type text =
       \<lparr>dt_type = Some (fst ?p),
        confidence = Some (of_nat (snd ?p) / of_nat (sum_list (map snd (type_scores ?tl)))),
        all_scores = Some (type_scores ?tl)\<rparr>"
    using sc by (simp add: analyze_document_type_def Let_def)
  show ?thesis
    using kws mx tot res by (intro exI [of _ "fst ?p"] exI [of _ kws]) simp
qed

lemma only_type:
  assumes "(t, kws) \<in> set document_types" "0 < keyword_score (lower text) kws"
    and "\<forall>t' kws'. (t', kws') \<in> set document_types \<and> t' \<noteq> t \<longrightarrow> keyword_score (lower text) kws' = 0"
  shows "dt_type (analyze_document_type text) = Some t \<and> confidence (analyze_document_type text) = Some 1"
proof -
  let ?tl = "lower text"
  have "filter (\<lambda>(t, s). 0 < s) (scored ?tl) = [(t, keyword_score ?tl kws)]"
  proof (rule single_positive)
    show "distinct (map fst (scored ?tl))" by (simp add: scored_keys distinct_document_types)
    show "(t, keyword_score ?tl kws) \<in> set (scored ?tl)" using assms(1) by (auto simp: scored_mem)
    show "0 < keyword_score ?tl kws" by (rule assms(2))
    show "\<forall>t' s'. (t', s') \<in> set (scored ?tl) \<and> t' \<noteq> t \<longrightarrow> s' = 0"
      using assms(3) by (auto simp: scored_mem)
  qed
  then have "type_scores ?tl = [(t, keyword_score ?tl kws)]" by (simp add: type_scores_eq)
  with assms(2) show ?thesis by (simp add: analyze_document_type_def Let_def)
qed

text \<open>
  Claim C8. \<^verbatim>\<open>analyze_document_type\<close> returns type \<^verbatim>\<open>unknown\<close> with confidence 0.0 (and
  no other key) exactly when the keyword score of every type of the table is zero.
  Otherwise the type returned is one whose score no other type exceeds, and the
  confidence is that score divided by the sum of the scores of all types. If one type
  alone has a positive score, that type is returned with confidence 1.
\<close>

theorem analyze_document_type_result:
  "(analyze_document_type text
      = \<lparr>dt_type = Some ''unknown'', confidence = Some 0, all_scores = None\<rparr>
    \<longleftrightarrow> (\<forall>t kws. (t, kws) \<in> set document_types \<longrightarrow> keyword_score (lower text) kws = 0))
   \<and> ((\<exists>t kws. (t, kws) \<in> set document_types \<and> 0 < keyword_score (lower text) kws) \<longrightarrow>
        (\<exists>t kws. (t, kws) \<in> set document_types
           \<and> dt_type (analyze_document_type text) = Some t
           \<and> (\<forall>t' kws'. (t', kws') \<in> set document_types \<longrightarrow>
                  keyword_score (lower text) kws' \<le> keyword_score (lower text) kws)
           \<and> confidence (analyze_document_type text)
               = Some (of_nat (keyword_score (lower text) kws)
                    / of_nat (sum_list (map (\<lambda>(t, kws). keyword_score (lower text) kws)
                                            document_types)))))
   \<and> (\<forall>t kws. (t, kws) \<in> set document_types \<and> 0 < keyword_score (lower text) kws
          \<and> (\<forall>t' kws'. (t', kws') \<in> set document_types \<and> t' \<noteq> t \<longrightarrow>
                 keyword_score (lower text) kws' = 0)
        \<longrightarrow> dt_type (analyze_document_type text) = Some t
            \<and> confidence (analyze_document_type text) = Some 1)"
proof (intro conjI)
  show "analyze_document_type text
          = \<lparr>dt_type = Some ''unknown'', confidence = Some 0, all_scores = None\<rparr>
        \<longleftrightarrow> (\<forall>t kws. (t, kws) \<in> set document_types \<longrightarrow> keyword_score (lower text) kws = 0)"
    by (rule unknown_iff)
next
  show "(\<exists>t kws. (t, kws) \<in> set document_types \<and> 0 < keyword_score (lower text) kws) \<longrightarrow>
        (\<exists>t kws. (t, kws) \<in> set document_types
           \<and> dt_type (analyze_document_type text) = Some t
           \<and> (\<forall>t' kws'. (t', kws') \<in> set document_types \<longrightarrow>
                  keyword_score (lower text) kws' \<le> keyword_score (lower text) kws)
           \<and> confidence (analyze_document_type text)
               = Some (of_nat (keyword_score (lower text) kws)
                    / of_nat (sum_list (map (\<lambda>(t, kws). keyword_score (lower text) kws)
                                            document_types))))"
    using primary_type by blast
next
  show "\<forall>t kws. (t, kws) \<in> set document_types \<and> 0 < keyword_score (lower text) kws
          \<and> (\<forall>t' kws'. (t', kws') \<in> set document_types \<and> t' \<noteq> t \<longrightarrow>
                 keyword_score (lower text) kws' = 0)
        \<longrightarrow> dt_type (analyze_document_type text) = Some t
            \<and> confidence (analyze_document_type text) = Some 1"
    using only_type by blast
qed

text \<open>
  A text without any keyword is \<^verbatim>\<open>unknown\<close>; a text whose keywords are all of the type
  \<^verbatim>\<open>motion\<close> is a motion with confidence 1.
\<close>

theorem analyze_document_type_result_witness:
  "analyze_document_type ''Nothing to see''
     = \<lparr>dt_type = Some ''unknown'', confidence = Some 0, all_scores = None\<rparr>
   \<and> dt_type (analyze_document_type ''Motion to Request'') = Some ''motion''
   \<and> confidence (analyze_document_type ''Motion to Request'') = Some 1"
proof -
  have none: "\<forall>p \<in> set document_types. keyword_score (lower ''Nothing to see'') (snd p) = 0"
    by code_simp
  have one: "0 < keyword_score (lower ''Motion to Request'') [''motion'', ''request'', ''application'']"
    by code_simp
  have rest: "\<forall>p \<in> set document_types.
                fst p \<noteq> ''motion'' \<longrightarrow> keyword_score (lower ''Motion to Request'') (snd p) = 0"
    by code_simp
  have mem: "(''motion'', [''motion'', ''request'', ''application'']) \<in> set document_types"
    by (simp add: document_types_def)
  have "analyze_document_type ''Nothing to see''
          = \<lparr>dt_type = Some ''unknown'', confidence = Some 0, all_scores = None\<rparr>"
    using analyze_document_type_result [of "''Nothing to see''", THEN conjunct1] none by auto
  moreover have "dt_type (analyze_document_type ''Motion to Request'') = Some ''motion''
      \<and> confidence (analyze_document_type ''Motion to Request'') = Some 1"
  proof -
    have others: "\<forall>t' kws'. (t', kws') \<in> set document_types \<and> t' \<noteq> ''motion'' \<longrightarrow>
                    keyword_score (lower ''Motion to Request'') kws' = 0"
      using rest by fastforce
    note only = analyze_document_type_result [of "''Motion to Request''", THEN conjunct2, THEN conjunct2]
    from only mem one others show ?thesis by blast
  qed
  ultimately show ?thesis by simp
qed

section \<open>Matching lower-case text\<close>

text \<open>
  On a text and a pattern without capital letters the flag \<^verbatim>\<open>re.IGNORECASE\<close> changes nothing.
\<close>

lemma lower_char_other: "\<not> (65 \<le> (of_char d :: int) \<and> (of_char d :: int) \<le> 90) \<Longrightarrow> lower_char d = d"
  unfolding lower_char_def Let_def by (rule if_not_P)

lemma lower_char_upper:
  "65 \<le> (of_char d :: int) \<and> (of_char d :: int) \<le> 90 \<Longrightarrow> lower_char d = char_of (of_char d + 32 :: int)"
  unfolding lower_char_def Let_def by (rule if_P)

lemma lower_char_idem: "lower_char (lower_char c) = lower_char c"
proof (cases "65 \<le> (of_char c :: int) \<and> (of_char c :: int) \<le> 90")
  case True
  have "(of_char (char_of (of_char c + 32 :: int)) :: int) = (of_char c + 32) mod 256"
    by (rule of_char_of)
  also from True have "\<dots> = of_char c + 32" by simp
  finally have "(of_char (lower_char c) :: int) = of_char c + 32"
    by (simp only: lower_char_upper [OF True])
  with True have "\<not> (65 \<le> (of_char (lower_char c) :: int) \<and> (of_char (lower_char c) :: int) \<le> 90)"
    by linarith
  then show ?thesis by (rule lower_char_other)
next
  case False
  then have "lower_char c = c" by (rule lower_char_other)
  then show ?thesis by simp
qed

lemma lower_is_lower: "\<forall>c \<in> set (lower s). lower_char c = c"
  by (simp add: lower_def lower_char_idem)

lemma ws_rests_subset: "r \<in> set (ws_rests s) \<Longrightarrow> set r \<subseteq> set s"
  by (induction s) (auto split: if_splits)

lemma atom_rests_subset: "r \<in> set (atom_rests ic a s) \<Longrightarrow> set r \<subseteq> set s"
  by (cases a; cases s) (auto split: if_splits dest: ws_rests_subset)

lemma atoms_rests_subset: "r \<in> set (atoms_rests ic g s) \<Longrightarrow> set r \<subseteq> set s"
proof (induction g arbitrary: s)
  case Nil
  then show ?case by simp
next
  case (Cons a g)
  then obtain r' where "r' \<in> set (atom_rests ic a s)" "r \<in> set (atoms_rests ic g r')" by auto
  with Cons.IH atom_rests_subset show ?case by blast
qed

lemma atom_rests_lower:
  assumes "\<forall>c \<in> set (atom_chars a). lower_char c = c" "\<forall>c \<in> set s. lower_char c = c"
  shows "atom_rests True a s = atom_rests False a s"
  using assms by (cases a; cases s) (auto simp: char_eq_def)

lemma atoms_rests_lower:
  assumes "\<forall>a \<in> set g. \<forall>c \<in> set (atom_chars a). lower_char c = c" "\<forall>c \<in> set s. lower_char c = c"
  shows "atoms_rests True g s = atoms_rests False g s"
  using assms
proof (induction g arbitrary: s)
  case Nil
  show ?case by simp
next
  case (Cons a g)
  have a: "atom_rests True a s = atom_rests False a s"
    using Cons.prems by (intro atom_rests_lower) auto
  have mp: "map (atoms_rests True g) (atom_rests False a s) = map (atoms_rests False g) (atom_rests False a s)"
  proof (rule map_cong [OF refl])
    fix r assume "r \<in> set (atom_rests False a s)"
    then have "set r \<subseteq> set s" by (rule atom_rests_subset)
    with Cons.prems show "atoms_rests True g r = atoms_rests False g r"
      by (intro Cons.IH) auto
  qed
  show ?case by (simp only: atoms_rests.simps a mp)
qed

lemma items_rests_lower:
  assumes "\<forall>i \<in> set p. \<forall>c \<in> set (item_chars i). lower_char c = c" "\<forall>c \<in> set s. lower_char c = c"
  shows "items_rests True p s = items_rests False p s"
  using assms
proof (induction p arbitrary: s)
  case Nil
  show ?case by simp
next
  case (Cons i p)
  have rec: "items_rests True p r = items_rests False p r" if "set r \<subseteq> set s" for r
    using Cons.prems that by (intro Cons.IH) auto
  show ?case
  proof (cases i)
    case (One a)
    have a: "atom_rests True a s = atom_rests False a s"
      using Cons.prems One by (intro atom_rests_lower) auto
    have mp: "map (items_rests True p) (atom_rests False a s) = map (items_rests False p) (atom_rests False a s)"
      by (rule map_cong [OF refl]) (auto intro: rec dest: atom_rests_subset)
    show ?thesis unfolding One by (simp only: items_rests.simps a mp)
  next
    case (Opt g)
    have g: "atoms_rests True g s = atoms_rests False g s"
      using Cons.prems Opt by (intro atoms_rests_lower) auto
    have mp: "map (items_rests True p) (atoms_rests False g s) = map (items_rests False p) (atoms_rests False g s)"
      by (rule map_cong [OF refl]) (auto intro: rec dest: atoms_rests_subset)
    have s: "items_rests True p s = items_rests False p s" by (rule rec) simp
    show ?thesis unfolding Opt by (simp only: items_rests.simps g mp s)
  qed
qed

lemma finditer_from_lower:
  assumes "\<forall>i \<in> set p. \<forall>c \<in> set (item_chars i). lower_char c = c" "\<forall>c \<in> set s. lower_char c = c"
  shows "finditer_from True p pos skip s = finditer_from False p pos skip s"
  using assms(2)
proof (induction s arbitrary: pos skip)
  case Nil
  show ?case by simp
next
  case (Cons c cs)
  have m: "match_len True p (c # cs) = match_len False p (c # cs)"
    using items_rests_lower [OF assms(1) Cons.prems] by (simp add: match_len_def)
  have "finditer_from True p pos' skip' cs = finditer_from False p pos' skip' cs" for pos' skip'
    using Cons.prems by (intro Cons.IH) auto
  with m show ?case by (simp split: option.splits)
qed

lemma finditer_lower:
  "\<forall>i \<in> set p. \<forall>c \<in> set (item_chars i). lower_char c = c \<Longrightarrow>
   finditer True p (lower text) = finditer False p (lower text)"
  unfolding finditer_def by (rule finditer_from_lower [OF _ lower_is_lower])

section \<open>Deduplication of the violations found\<close>

lemma starts_with_iff: "starts_with s p \<longleftrightarrow> (\<exists>r. s = p @ r)"
  by (induction p arbitrary: s) (auto split: list.splits)

lemma dict_set_subset: "set (dict_set d k v) \<subseteq> insert (k, v) (set d)"
  by (induction d k v rule: dict_set.induct) auto

lemma dict_update_subset: "set (dict_update d other) \<subseteq> set d \<union> set other"
  unfolding dict_update_def
proof (induction other arbitrary: d)
  case Nil
  show ?case by simp
next
  case (Cons x other)
  obtain k v where x: "x = (k, v)" by (cases x)
  have "set (foldl (\<lambda>acc (k, v). dict_set acc k v) (dict_set d k v) other) \<subseteq> set (dict_set d k v) \<union> set other"
    by (rule Cons.IH)
  with dict_set_subset [of d k v] x show ?case by auto
qed

lemma dedup_loop_snoc:
  "dedup_loop (vs @ [v]) seen acc =
     (if dedup_key v \<in> seen \<union> dedup_key ` set vs then dedup_loop vs seen acc
      else dedup_loop vs seen acc @ [v])"
  by (induction vs arbitrary: seen acc) auto

lemma deduplicate_snoc:
  "deduplicate_violations (vs @ [v]) =
     (if dedup_key v \<in> dedup_key ` set vs then deduplicate_violations vs
      else deduplicate_violations vs @ [v])"
  by (simp add: deduplicate_violations_def dedup_loop_snoc)

lemma deduplicate_first:
  "deduplicate_violations vs =
     map ((!) vs) (filter (\<lambda>i. \<forall>j<i. dedup_key (vs ! j) \<noteq> dedup_key (vs ! i)) [0..<length vs])"
proof (induction vs rule: rev_induct)
  case Nil
  show ?case by (simp add: deduplicate_violations_def)
next
  case (snoc v vs)
  let ?n = "length vs"
  let ?P = "\<lambda>ws i. \<forall>j<i. dedup_key (ws ! j) \<noteq> dedup_key (ws ! i)"
  have f: "filter (?P (vs @ [v])) [0..<?n] = filter (?P vs) [0..<?n]"
    by (rule filter_cong [OF refl]) (simp add: nth_append)
  have m: "map ((!) (vs @ [v])) (filter (?P vs) [0..<?n]) = map ((!) vs) (filter (?P vs) [0..<?n])"
    by (rule map_cong [OF refl]) (simp add: nth_append)
  have l: "?P (vs @ [v]) ?n \<longleftrightarrow> dedup_key v \<notin> dedup_key ` set vs"
  proof
    assume a: "?P (vs @ [v]) ?n"
    show "dedup_key v \<notin> dedup_key ` set vs"
    proof
      assume "dedup_key v \<in> dedup_key ` set vs"
      then obtain j where "j < ?n" "dedup_key (vs ! j) = dedup_key v"
        by (auto simp: in_set_conv_nth)
      with a show False by (auto simp: nth_append)
    qed
  next
    assume "dedup_key v \<notin> dedup_key ` set vs"
    then have "dedup_key (vs ! j) \<noteq> dedup_key v" if "j < ?n" for j
      using that by (metis image_eqI nth_mem)
    then show "?P (vs @ [v]) ?n" by (simp add: nth_append)
  qed
  have "map ((!) (vs @ [v])) (filter (?P (vs @ [v])) [0..<length (vs @ [v])])
      = map ((!) vs) (filter (?P vs) [0..<?n]) @ (if dedup_key v \<notin> dedup_key ` set vs then [v] else [])"
    using l by (simp add: f m)
  with snoc.IH show ?case by (simp add: deduplicate_snoc)
qed

lemma table_types_free:
  "\<forall>t1 \<in> set (map fst (violation_patterns @ cps_violations @ family_court_violations)).
   \<forall>t2 \<in> set (map fst (violation_patterns @ cps_violations @ family_court_violations)).
     \<not> starts_with t1 (t2 @ ''_'')"
  by code_simp

lemma key_split:
  assumes "t1 @ CHR ''_'' # c1 = t2 @ CHR ''_'' # c2"
    and "\<not> starts_with t1 (t2 @ ''_'')" "\<not> starts_with t2 (t1 @ ''_'')"
  shows "t1 = t2 \<and> c1 = c2"
proof -
  from assms(1) obtain us where
    us: "(t1 = t2 @ us \<and> us @ CHR ''_'' # c1 = CHR ''_'' # c2) \<or> (t1 @ us = t2 \<and> CHR ''_'' # c1 = us @ CHR ''_'' # c2)"
    by (auto simp: append_eq_append_conv2)
  show ?thesis
  proof (cases us)
    case Nil
    with us show ?thesis by auto
  next
    case (Cons u us')
    from us show ?thesis
    proof
      assume a: "t1 = t2 @ us \<and> us @ CHR ''_'' # c1 = CHR ''_'' # c2"
      with Cons have "u = CHR ''_''" by simp
      with a Cons have "t1 = (t2 @ ''_'') @ us'" by simp
      then have "starts_with t1 (t2 @ ''_'')" unfolding starts_with_iff by blast
      with assms(2) show ?thesis by simp
    next
      assume a: "t1 @ us = t2 \<and> CHR ''_'' # c1 = us @ CHR ''_'' # c2"
      with Cons have "u = CHR ''_''" by simp
      with a Cons have "t2 = (t1 @ ''_'') @ us'" by auto
      then have "starts_with t2 (t1 @ ''_'')" unfolding starts_with_iff by blast
      with assms(3) show ?thesis by simp
    qed
  qed
qed

lemma dedup_key_eq:
  assumes "vtype a \<in> set (map fst (violation_patterns @ cps_violations @ family_court_violations))"
    and "vtype b \<in> set (map fst (violation_patterns @ cps_violations @ family_court_violations))"
    and "vcontext a \<noteq> None" "vcontext b \<noteq> None"
  shows "dedup_key a = dedup_key b \<longleftrightarrow>
         vtype a = vtype b \<and> map_option (take 50) (vcontext a) = map_option (take 50) (vcontext b)"
proof -
  from assms(3,4) obtain ca cb where c: "vcontext a = Some ca" "vcontext b = Some cb" by auto
  from table_types_free assms(1,2)
  have free: "\<not> starts_with (vtype a) (vtype b @ ''_'')" "\<not> starts_with (vtype b) (vtype a @ ''_'')"
    by blast+
  show ?thesis
  proof
    assume "dedup_key a = dedup_key b"
    then have "vtype a @ CHR ''_'' # take 50 ca = vtype b @ CHR ''_'' # take 50 cb"
      by (simp add: dedup_key_def c)
    from key_split [OF this free] show "vtype a = vtype b \<and> map_option (take 50) (vcontext a) = map_option (take 50) (vcontext b)"
      by (simp add: c)
  next
    assume "vtype a = vtype b \<and> map_option (take 50) (vcontext a) = map_option (take 50) (vcontext b)"
    then show "dedup_key a = dedup_key b" by (simp add: dedup_key_def c)
  qed
qed

lemma scan_patterns_types:
  "v \<in> set (scan_patterns text tab) \<Longrightarrow> vtype v \<in> fst ` set tab \<and> vcontext v \<noteq> None"
proof -
  assume "v \<in> set (scan_patterns text tab)"
  then obtain e m where e: "e \<in> set tab"
    and v: "v = match_violation text (lower text) (fst e) (snd e) m"
    by (auto simp: scan_patterns_def)
  from v have "vtype v = fst e" "vcontext v \<noteq> None"
    by (simp_all add: match_violation_def Let_def)
  with e show ?thesis by auto
qed

lemma select_patterns_subset:
  "set (select_patterns tl' dt) \<subseteq> set (violation_patterns @ cps_violations @ family_court_violations)"
proof -
  have a: "set (dict_update violation_patterns cps_violations) \<subseteq> set violation_patterns \<union> set cps_violations"
    by (rule dict_update_subset)
  have b: "set (dict_update d family_court_violations) \<subseteq> set d \<union> set family_court_violations" for d
    by (rule dict_update_subset)
  show ?thesis
    using a b [of violation_patterns] b [of "dict_update violation_patterns cps_violations"]
    unfolding select_patterns_def Let_def by (auto split: if_splits)
qed

lemma found_types:
  assumes "v \<in> set (found_violations text dt)"
  shows "vtype v \<in> set (map fst (violation_patterns @ cps_violations @ family_court_violations))"
    and "vcontext v \<noteq> None"
proof -
  from assms have "vtype v \<in> fst ` set (select_patterns (lower text) dt) \<and> vcontext v \<noteq> None"
    unfolding found_violations_def by (rule scan_patterns_types)
  with select_patterns_subset [of "lower text" dt]
  show "vtype v \<in> set (map fst (violation_patterns @ cps_violations @ family_court_violations))"
    and "vcontext v \<noteq> None" by auto
qed

lemma found_first:
  "deduplicate_violations (found_violations text dt) =
     map ((!) (found_violations text dt))
       (filter (\<lambda>i. \<forall>j<i. \<not> (vtype (found_violations text dt ! j) = vtype (found_violations text dt ! i)
                     \<and> map_option (take 50) (vcontext (found_violations text dt ! j))
                         = map_option (take 50) (vcontext (found_violations text dt ! i))))
          [0..<length (found_violations text dt)])"
proof -
  let ?f = "found_violations text dt"
  have "filter (\<lambda>i. \<forall>j<i. dedup_key (?f ! j) \<noteq> dedup_key (?f ! i)) [0..<length ?f]
      = filter (\<lambda>i. \<forall>j<i. \<not> (vtype (?f ! j) = vtype (?f ! i)
                     \<and> map_option (take 50) (vcontext (?f ! j)) = map_option (take 50) (vcontext (?f ! i))))
          [0..<length ?f]"
  proof (rule filter_cong [OF refl])
    fix i assume "i \<in> set [0..<length ?f]"
    then have i: "i < length ?f" by simp
    have "dedup_key (?f ! j) = dedup_key (?f ! i) \<longleftrightarrow>
          vtype (?f ! j) = vtype (?f ! i)
            \<and> map_option (take 50) (vcontext (?f ! j)) = map_option (take 50) (vcontext (?f ! i))"
      if "j < i" for j
    proof -
      from that i have "?f ! j \<in> set ?f" "?f ! i \<in> set ?f" by simp_all
      then show ?thesis by (intro dedup_key_eq found_types)
    qed
    then show "(\<forall>j<i. dedup_key (?f ! j) \<noteq> dedup_key (?f ! i))
        = (\<forall>j<i. \<not> (vtype (?f ! j) = vtype (?f ! i)
                     \<and> map_option (take 50) (vcontext (?f ! j)) = map_option (take 50) (vcontext (?f ! i))))"
      by simp
  qed
  then show ?thesis by (simp only: deduplicate_first)
qed

section \<open>The result of detect-violations\<close>

text \<open>The patterns of the three tables have no capital letters.\<close>

lemma lower_general:
  "\<forall>e \<in> set violation_patterns. \<forall>p \<in> set (patterns (snd e)). \<forall>i \<in> set p. \<forall>c \<in> set (item_chars i). lower_char c = c"
  by code_simp

lemma lower_cps:
  "\<forall>e \<in> set cps_violations. \<forall>p \<in> set (patterns (snd e)). \<forall>i \<in> set p. \<forall>c \<in> set (item_chars i). lower_char c = c"
  by code_simp

lemma lower_family:
  "\<forall>e \<in> set family_court_violations. \<forall>p \<in> set (patterns (snd e)). \<forall>i \<in> set p. \<forall>c \<in> set (item_chars i). lower_char c = c"
  by code_simp

lemma scan_patterns_lower:
  assumes "\<forall>e \<in> set tab. \<forall>p \<in> set (patterns (snd e)). \<forall>i \<in> set p. \<forall>c \<in> set (item_chars i). lower_char c = c"
  shows "scan_patterns text tab =
     concat (map (\<lambda>e. concat (map (\<lambda>p. map (match_violation text (lower text) (fst e) (snd e))
             (finditer False p (lower text))) (patterns (snd e)))) tab)"
proof -
  have "map (\<lambda>(violation_type, violation_info).
       concat (map (\<lambda>pattern.
           map (match_violation text (lower text) violation_type violation_info)
             (finditer True pattern (lower text)))
         (patterns violation_info))) tab
     = map (\<lambda>e. concat (map (\<lambda>p. map (match_violation text (lower text) (fst e) (snd e))
             (finditer False p (lower text))) (patterns (snd e)))) tab"
  proof (rule map_cong [OF refl])
    fix e assume e: "e \<in> set tab"
    have "map (\<lambda>pattern. map (match_violation text (lower text) (fst e) (snd e)) (finditer True pattern (lower text))) (patterns (snd e))
        = map (\<lambda>p. map (match_violation text (lower text) (fst e) (snd e)) (finditer False p (lower text))) (patterns (snd e))"
    proof (rule map_cong [OF refl])
      fix p assume "p \<in> set (patterns (snd e))"
      with assms e have "\<forall>i \<in> set p. \<forall>c \<in> set (item_chars i). lower_char c = c" by blast
      then show "map (match_violation text (lower text) (fst e) (snd e)) (finditer True p (lower text))
          = map (match_violation text (lower text) (fst e) (snd e)) (finditer False p (lower text))"
        by (simp only: finditer_lower)
    qed
    then show "(case e of (violation_type, violation_info) \<Rightarrow>
       concat (map (\<lambda>pattern.
           map (match_violation text (lower text) violation_type violation_info)
             (finditer True pattern (lower text)))
         (patterns violation_info)))
       = concat (map (\<lambda>p. map (match_violation text (lower text) (fst e) (snd e))
             (finditer False p (lower text))) (patterns (snd e)))"
      by (simp only: case_prod_unfold)
  qed
  then show ?thesis by (simp only: scan_patterns_def)
qed

lemma scan_patterns_append:
  "scan_patterns text (a @ b) = scan_patterns text a @ scan_patterns text b"
  by (simp add: scan_patterns_def)

lemma tables_disjoint:
  "dict_update violation_patterns cps_violations = violation_patterns @ cps_violations"
  "dict_update violation_patterns family_court_violations = violation_patterns @ family_court_violations"
  "dict_update (violation_patterns @ cps_violations) family_court_violations
     = violation_patterns @ cps_violations @ family_court_violations"
  by code_simp+

subsection \<open>The scenario\<close>

lemma scen_lower:
  "lower scenario_text =
     ''the court found a due process violation in denying notice. '' @
     ''due process violation occurred again here.''"
  by code_simp

lemma scen_general:
  "map (\<lambda>v. (vtype v, severity v, severity_score v, vcontext v = Some scenario_text, position v))
     (scan_patterns scenario_text violation_patterns)
   = [(''constitutional_violation'', Some ''high'', Some 3, True, Some (18, 39)),
      (''constitutional_violation'', Some ''high'', Some 3, True, Some (59, 80))]"
  unfolding scan_patterns_lower [OF lower_general] scen_lower
  by code_simp

lemma scen_cps: "scan_patterns scenario_text cps_violations = []"
  unfolding scan_patterns_lower [OF lower_cps] scen_lower
  by code_simp

lemma scen_family: "scan_patterns scenario_text family_court_violations = []"
  unfolding scan_patterns_lower [OF lower_family] scen_lower
  by code_simp

lemma scen_terms:
  "\<not> list_ex (contains_sub (lower scenario_text)) [''cps'', ''child protective'', ''dhr'']"
  "\<not> contains_sub (lower scenario_text) ''family court''"
  unfolding scen_lower by code_simp+

lemma scen_select:
  "select_patterns (lower scenario_text) dt = violation_patterns
   \<or> select_patterns (lower scenario_text) dt = violation_patterns @ cps_violations
   \<or> select_patterns (lower scenario_text) dt = violation_patterns @ family_court_violations
   \<or> select_patterns (lower scenario_text) dt
       = violation_patterns @ cps_violations @ family_court_violations"
  unfolding select_patterns_def Let_def
  by (simp add: scen_terms tables_disjoint)

lemma scen_found_general:
  "found_violations scenario_text dt = scan_patterns scenario_text violation_patterns"
  using scen_select [of dt]
  unfolding found_violations_def
  by (auto simp: scan_patterns_append scen_cps scen_family)

lemma scen_found:
  "\<exists>a b. found_violations scenario_text dt = [a, b]
     \<and> vtype a = vtype b \<and> vcontext a = vcontext b \<and> vcontext a = Some scenario_text
     \<and> position a = Some (18, 39) \<and> severity a = Some ''high'' \<and> severity_score a = Some 3"
proof -
  from scen_general obtain a b where ab: "scan_patterns scenario_text violation_patterns = [a, b]"
    and a: "(vtype a, severity a, severity_score a, vcontext a = Some scenario_text, position a)
         = (''constitutional_violation'', Some ''high'', Some 3, True, Some (18, 39))"
    and b: "(vtype b, severity b, severity_score b, vcontext b = Some scenario_text, position b)
         = (''constitutional_violation'', Some ''high'', Some 3, True, Some (59, 80))"
    by (auto simp: map_eq_Cons_conv)
  from a b have "vtype a = vtype b" "vcontext a = vcontext b" "vcontext a = Some scenario_text"
    "position a = Some (18, 39)" "severity a = Some ''high''" "severity_score a = Some 3"
    by simp_all
  with ab show ?thesis unfolding scen_found_general by blast
qed

lemma dedup_pair:
  "vtype a = vtype b \<Longrightarrow> vcontext a = vcontext b \<Longrightarrow> deduplicate_violations [a, b] = [a]"
  by (simp add: deduplicate_violations_def dedup_key_def)

lemma scen_detect:
  "\<exists>v. detect_violations scenario_text dt = [v]
     \<and> position v = Some (18, 39) \<and> severity v = Some ''high'' \<and> severity_score v = Some 3"
proof -
  from scen_found [of dt] obtain a b where f: "found_violations scenario_text dt = [a, b]"
    and ab: "vtype a = vtype b" "vcontext a = vcontext b"
    and a: "position a = Some (18, 39)" "severity a = Some ''high''" "severity_score a = Some 3"
    by blast
  have "detect_violations scenario_text dt = [a]"
    unfolding detect_violations_def f dedup_pair [OF ab] by (simp add: sort_desc_def)
  with a show ?thesis by simp
qed

text \<open>
  Claim C1. Of the records that \<^verbatim>\<open>detect_violations\<close> finds (in the order of the
  appends), the one at index \<open>i\<close> is kept exactly when no record at an index \<open>j < i\<close> has
  the same type and the same first 50 characters of context; the records kept stay in
  their order and are then sorted by score. For the text of the scenario, and every
  document type, exactly one violation is returned, of severity \<^verbatim>\<open>high\<close> and score 3.
\<close>

theorem detect_violations_keeps_first:
  "detect_violations text doc_type =
     sort_desc score_key
       (map ((!) (found_violations text doc_type))
          (filter (\<lambda>i. \<forall>j<i.
               \<not> (vtype (found_violations text doc_type ! j)
                     = vtype (found_violations text doc_type ! i)
                  \<and> map_option (take 50) (vcontext (found_violations text doc_type ! j))
                     = map_option (take 50) (vcontext (found_violations text doc_type ! i))))
             [0..<length (found_violations text doc_type)]))
   \<and> (\<exists>v. detect_violations scenario_text doc_type = [v]
          \<and> severity v = Some ''high'' \<and> severity_score v = Some 3)"
proof (intro conjI)
  show "detect_violations text doc_type =
     sort_desc score_key
       (map ((!) (found_violations text doc_type))
          (filter (\<lambda>i. \<forall>j<i.
               \<not> (vtype (found_violations text doc_type ! j)
                     = vtype (found_violations text doc_type ! i)
                  \<and> map_option (take 50) (vcontext (found_violations text doc_type ! j))
                     = map_option (take 50) (vcontext (found_violations text doc_type ! i))))
             [0..<length (found_violations text doc_type)]))"
    unfolding detect_violations_def by (simp only: found_first)
next
  show "\<exists>v. detect_violations scenario_text doc_type = [v]
          \<and> severity v = Some ''high'' \<and> severity_score v = Some 3"
    using scen_detect [of doc_type] by blast
qed

text \<open>
  In the scenario the pattern matches at the positions 18 and 59, both records have the
  whole text as context, and the record kept is the first one.
\<close>

theorem detect_violations_keeps_first_witness:
  "map position (detect_violations scenario_text ''unknown'') = [Some (18, 39)]"
proof -
  from scen_found [of "''unknown''"] obtain a b
    where f: "found_violations scenario_text ''unknown'' = [a, b]"
      and ab: "vtype a = vtype b" "vcontext a = vcontext b"
      and a: "position a = Some (18, 39)"
    by blast
  from ab have "filter (\<lambda>i. \<forall>j<i. \<not> (vtype ([a, b] ! j) = vtype ([a, b] ! i)
                  \<and> map_option (take 50) (vcontext ([a, b] ! j))
                     = map_option (take 50) (vcontext ([a, b] ! i))))
             [0..<length [a, b]] = [0]"
    by simp
  then show ?thesis
    using detect_violations_keeps_first [of scenario_text "''unknown''", THEN conjunct1] a
    unfolding f by (simp add: sort_desc_def)
qed

subsection \<open>Scores and order\<close>

lemma scan_patterns_severity:
  assumes "v \<in> set (scan_patterns text tab)"
  shows "\<exists>e \<in> set tab. severity v = Some (info_severity (snd e))
           \<and> severity_score v = Some (get_severity_score (info_severity (snd e)))"
proof -
  from assms obtain e m where e: "e \<in> set tab"
    and v: "v = match_violation text (lower text) (fst e) (snd e) m"
    by (auto simp: scan_patterns_def)
  from v have "severity v = Some (info_severity (snd e))"
    "severity_score v = Some (get_severity_score (info_severity (snd e)))"
    by (simp_all add: match_violation_def Let_def)
  with e show ?thesis by blast
qed

lemma table_severities:
  "\<forall>e \<in> set (violation_patterns @ cps_violations @ family_court_violations).
     info_severity (snd e) = ''high'' \<or> info_severity (snd e) = ''medium'' \<or> info_severity (snd e) = ''low''"
  by code_simp

lemma deduplicate_subset: "set (deduplicate_violations vs) \<subseteq> set vs"
  unfolding deduplicate_first by auto

lemma detect_set: "set (detect_violations text dt) \<subseteq> set (found_violations text dt)"
  using deduplicate_subset [of "found_violations text dt"]
  by (simp add: detect_violations_def sort_desc_def)

lemma detect_scores:
  assumes "v \<in> set (detect_violations text dt)"
  shows "(severity v = Some ''high'' \<and> severity_score v = Some 3)
       \<or> (severity v = Some ''medium'' \<and> severity_score v = Some 2)
       \<or> (severity v = Some ''low'' \<and> severity_score v = Some 1)"
proof -
  from assms detect_set have "v \<in> set (scan_patterns text (select_patterns (lower text) dt))"
    unfolding found_violations_def by blast
  from scan_patterns_severity [OF this] obtain e where
    e: "e \<in> set (select_patterns (lower text) dt)"
    and v: "severity v = Some (info_severity (snd e))"
       "severity_score v = Some (get_severity_score (info_severity (snd e)))"
    by blast
  from e select_patterns_subset table_severities
  have "info_severity (snd e) = ''high'' \<or> info_severity (snd e) = ''medium'' \<or> info_severity (snd e) = ''low''"
    by blast
  with v show ?thesis by (auto simp: get_severity_score_def)
qed

lemma detect_sorted: "sorted_wrt (\<lambda>v w. score_key w \<le> score_key v) (detect_violations text dt)"
proof -
  have "sorted (map (\<lambda>x. - score_key x) (detect_violations text dt))"
    unfolding detect_violations_def sort_desc_def by (rule sorted_sort_key)
  then show ?thesis by (simp add: sorted_map)
qed

lemma detect_stable:
  "filter (\<lambda>v. score_key v = k) (detect_violations text dt)
     = filter (\<lambda>v. score_key v = k) (deduplicate_violations (found_violations text dt))"
  using sort_key_stable [of "\<lambda>x. - score_key x" "- k" "deduplicate_violations (found_violations text dt)"]
  by (simp add: detect_violations_def sort_desc_def)

text \<open>
  Claim C2. Every violation that \<^verbatim>\<open>detect_violations\<close> returns has severity \<^verbatim>\<open>high\<close> and
  score 3, or \<^verbatim>\<open>medium\<close> and 2, or \<^verbatim>\<open>low\<close> and 1. The list returned is in descending
  order of the score, and the sort is stable: the violations of one score are in the
  order they had after the deduplication.
\<close>

theorem detect_violations_scored_sorted:
  "(\<forall>v \<in> set (detect_violations text doc_type).
      (severity v = Some ''high'' \<and> severity_score v = Some 3)
    \<or> (severity v = Some ''medium'' \<and> severity_score v = Some 2)
    \<or> (severity v = Some ''low'' \<and> severity_score v = Some 1))
   \<and> sorted_wrt (\<lambda>v w. score_key w \<le> score_key v) (detect_violations text doc_type)
   \<and> (\<forall>k. filter (\<lambda>v. score_key v = k) (detect_violations text doc_type)
            = filter (\<lambda>v. score_key v = k)
                (deduplicate_violations (found_violations text doc_type)))"
  using detect_scores detect_sorted detect_stable by blast

text \<open>
  An example in which the sort changes the order: a low violation of the general table
  is found before a high one of the family court table.
\<close>

lemma example_lower: "lower ''filing error; judicial bias'' = ''filing error; judicial bias''"
  by code_simp

lemma example_select:
  "select_patterns ''filing error; judicial bias'' ''custody''
     = violation_patterns @ family_court_violations"
proof -
  have "\<not> contains_sub (lower ''custody'') ''cps''"
    "\<not> list_ex (contains_sub ''filing error; judicial bias'') [''cps'', ''child protective'', ''dhr'']"
    "contains_sub (lower ''custody'') ''custody''"
    by code_simp+
  then show ?thesis
    unfolding select_patterns_def Let_def by (simp add: tables_disjoint)
qed

lemma example_general:
  "map (\<lambda>v. (vtype v, severity v, severity_score v))
     (scan_patterns ''filing error; judicial bias'' violation_patterns)
   = [(''documentation_error'', Some ''low'', Some 1)]"
  unfolding scan_patterns_lower [OF lower_general] example_lower
  by code_simp

lemma example_family:
  "map (\<lambda>v. (vtype v, severity v, severity_score v))
     (scan_patterns ''filing error; judicial bias'' family_court_violations)
   = [(''judicial_bias'', Some ''high'', Some 3)]"
  unfolding scan_patterns_lower [OF lower_family] example_lower
  by code_simp

lemma example_found:
  "map (\<lambda>v. (vtype v, severity v, severity_score v))
     (found_violations ''filing error; judicial bias'' ''custody'')
   = [(''documentation_error'', Some ''low'', Some 1), (''judicial_bias'', Some ''high'', Some 3)]"
  unfolding found_violations_def example_lower example_select scan_patterns_append
  by (simp add: example_general example_family)

theorem detect_violations_scored_sorted_witness:
  "map (\<lambda>v. (vtype v, severity v, severity_score v))
     (found_violations ''filing error; judicial bias'' ''custody'')
   = [(''documentation_error'', Some ''low'', Some 1), (''judicial_bias'', Some ''high'', Some 3)]
   \<and> map (\<lambda>v. (vtype v, severity v, severity_score v))
     (detect_violations ''filing error; judicial bias'' ''custody'')
   = [(''judicial_bias'', Some ''high'', Some 3), (''documentation_error'', Some ''low'', Some 1)]"
proof -
  let ?t = "''filing error; judicial bias''"
  from example_found obtain a b where f: "found_violations ?t ''custody'' = [a, b]"
    and a: "vtype a = ''documentation_error''" "severity a = Some ''low''"
    and b: "vtype b = ''judicial_bias''" "severity b = Some ''high''"
    by (auto simp: map_eq_Cons_conv)
  from a b have d: "deduplicate_violations [a, b] = [a, b]"
    by (simp add: deduplicate_violations_def dedup_key_def)
  have s: "set (detect_violations ?t ''custody'') = {a, b}"
    unfolding detect_violations_def sort_desc_def f d by auto
  note scored = detect_violations_scored_sorted [of ?t "''custody''", THEN conjunct1]
  from scored s a have sa: "severity_score a = Some 1" by auto
  from scored s b have sb: "severity_score b = Some 3" by auto
  from sa sb have "detect_violations ?t ''custody'' = [b, a]"
    unfolding detect_violations_def sort_desc_def f d by (simp add: score_key_def)
  with f a b sa sb show ?thesis by simp
qed

section \<open>Rebuilding the derived parts of the case\<close>

lemma map_of_dict_set: "map_of (dict_set d k v) k' = (if k' = k then Some v else map_of d k')"
  by (induction d k v rule: dict_set.induct) auto

lemma keys_dict_set:
  "map fst (dict_set d k v) = (if k \<in> fst ` set d then map fst d else map fst d @ [k])"
  by (induction d k v rule: dict_set.induct) (auto simp: image_iff)

lemma distinct_dict_set: "distinct (map fst d) \<Longrightarrow> distinct (map fst (dict_set d k v))"
  by (simp add: keys_dict_set)

lemma map_of_append_to:
  "map_of (append_to d k v) k' =
     (if k' = k then Some ((case map_of d k of None \<Rightarrow> [] | Some vs \<Rightarrow> vs) @ [v]) else map_of d k')"
  by (simp add: append_to_def map_of_dict_set)

lemma distinct_append_to: "distinct (map fst d) \<Longrightarrow> distinct (map fst (append_to d k v))"
  by (simp add: append_to_def distinct_dict_set)

text \<open>The dict of the case numbers groups the listings by their string.\<close>

lemma collect_refs_listings:
  "collect_refs kind docs = foldl (\<lambda>acc p. append_to acc (fst p) (snd p)) [] (listings kind docs)"
proof -
  have "foldl (\<lambda>acc item.
              case entity_list (doc_legal_analysis (snd item)) kind of
                None \<Rightarrow> acc
              | Some strs \<Rightarrow>
                  foldl (\<lambda>acc' s. append_to acc' s
                           \<lparr>ref_document = filename (snd item), ref_hash = fst item\<rparr>) acc strs)
       init docs = foldl (\<lambda>acc p. append_to acc (fst p) (snd p)) init (listings kind docs)" for init
  proof (induction docs arbitrary: init)
    case Nil
    show ?case by (simp add: listings_def)
  next
    case (Cons item docs)
    have inner: "foldl (\<lambda>acc' s. append_to acc' s r) a strs
            = foldl (\<lambda>acc p. append_to acc (fst p) (snd p)) a (map (\<lambda>s. (s, r)) strs)" for a r strs
      by (induction strs arbitrary: a) auto
    show ?case
      using Cons.IH by (simp add: listings_def entity_strings_def inner split: option.splits)
  qed
  then show ?thesis by (simp add: collect_refs_def)
qed

lemma grouped_map_of:
  "map_of (foldl (\<lambda>acc p. append_to acc (fst p) (snd p)) init ps) k =
     (case map_of init k of
        None \<Rightarrow> (if k \<in> fst ` set ps then Some (map snd (filter (\<lambda>p. fst p = k) ps)) else None)
      | Some old \<Rightarrow> Some (old @ map snd (filter (\<lambda>p. fst p = k) ps)))"
proof (induction ps arbitrary: init)
  case Nil
  show ?case by (simp split: option.splits)
next
  case (Cons p ps)
  show ?case
    by (simp add: Cons.IH map_of_append_to split: option.splits)
qed

lemma grouped_distinct:
  "distinct (map fst init) \<Longrightarrow> distinct (map fst (foldl (\<lambda>acc p. append_to acc (fst p) (snd p)) init ps))"
  by (induction ps arbitrary: init) (auto simp: distinct_append_to)

lemma collect_refs_distinct: "distinct (map fst (collect_refs kind docs))"
  by (simp add: collect_refs_listings grouped_distinct)

lemma collect_refs_map_of:
  "map_of (collect_refs kind docs) k =
     (if k \<in> fst ` set (listings kind docs)
      then Some (map snd (filter (\<lambda>p. fst p = k) (listings kind docs))) else None)"
  by (simp add: collect_refs_listings grouped_map_of)

lemma collect_refs_item:
  assumes "(k, refs) \<in> set (collect_refs kind docs)"
  shows "refs = map snd (filter (\<lambda>p. fst p = k) (listings kind docs))"
    and "k \<in> fst ` set (listings kind docs)"
proof -
  from assms collect_refs_distinct have "map_of (collect_refs kind docs) k = Some refs" by simp
  then show "refs = map snd (filter (\<lambda>p. fst p = k) (listings kind docs))"
    and "k \<in> fst ` set (listings kind docs)"
    by (auto simp: collect_refs_map_of split: if_splits)
qed

lemma listings_ref:
  "(s, r) \<in> set (listings kind docs) \<Longrightarrow>
   \<exists>item \<in> set docs. r = \<lparr>ref_document = filename (snd item), ref_hash = fst item\<rparr>"
  by (auto simp: listings_def)

lemma map_of_present: "(h, d) \<in> set docs \<Longrightarrow> map_of docs h \<noteq> None"
  by (induction docs) auto

lemma collect_refs_hash:
  assumes "item \<in> set (collect_refs kind docs)" "r \<in> set (snd item)"
  shows "map_of docs (ref_hash r) \<noteq> None"
proof -
  obtain k refs where item: "item = (k, refs)" by (cases item)
  from collect_refs_item(1) [of k refs kind docs] assms item
  obtain s where "(s, r) \<in> set (listings kind docs)" by auto
  from listings_ref [OF this] obtain it where "it \<in> set docs" "ref_hash r = fst it" by auto
  then show ?thesis using map_of_present [of "fst it" "snd it" docs] by simp
qed

text \<open>
  Every hash in the dict of the case numbers is a key of the documents, so
  \<^verbatim>\<open>detect_contradictions\<close> never raises.
\<close>

lemma lookup_types_ok:
  "\<forall>r \<in> set rs. map_of docs (ref_hash r) \<noteq> None \<Longrightarrow>
   lookup_types docs rs
     = Inr (map (\<lambda>r. doc_type_of (doc_legal_analysis (the (map_of docs (ref_hash r))))) rs)"
  by (induction rs) auto

lemma flag_all_ok:
  assumes "\<forall>item \<in> set items. \<forall>r \<in> set (snd item). map_of docs (ref_hash r) \<noteq> None"
  shows "flag_all docs items =
     Inr (concat (map (\<lambda>item.
        if 1 < card (set (map (\<lambda>r. doc_type_of (doc_legal_analysis (the (map_of docs (ref_hash r)))))
                            (snd item)))
        then [inconsistency (fst item) (snd item)] else []) items))"
  using assms
proof (induction items)
  case Nil
  show ?case by simp
next
  case (Cons item items)
  let ?tys = "map (\<lambda>r. doc_type_of (doc_legal_analysis (the (map_of docs (ref_hash r))))) (snd item)"
  from Cons.prems have l: "lookup_types docs (snd item) = Inr ?tys"
    by (intro lookup_types_ok) simp
  have "card (set ?tys) \<le> length (snd item)" using card_length [of ?tys] by simp
  then have "1 < card (set ?tys) \<Longrightarrow> 1 < length (snd item)" by simp
  with l have "flag_case_number docs item
      = Inr (if 1 < card (set ?tys) then [inconsistency (fst item) (snd item)] else [])"
    by (auto simp: flag_case_number_def)
  moreover from Cons have "flag_all docs items =
     Inr (concat (map (\<lambda>item.
        if 1 < card (set (map (\<lambda>r. doc_type_of (doc_legal_analysis (the (map_of docs (ref_hash r)))))
                            (snd item)))
        then [inconsistency (fst item) (snd item)] else []) items))" by simp
  ultimately show ?case by simp
qed

lemma detect_contradictions_ok:
  "detect_contradictions c =
     Inr (c\<lparr>contradictions :=
            concat (map (\<lambda>item.
              if 1 < card (set (map (\<lambda>r. doc_type_of (doc_legal_analysis
                                        (the (map_of (documents c) (ref_hash r))))) (snd item)))
              then [inconsistency (fst item) (snd item)] else [])
              (collect_refs ''case_numbers'' (documents c)))\<rparr>,
          concat (map (\<lambda>item.
              if 1 < card (set (map (\<lambda>r. doc_type_of (doc_legal_analysis
                                        (the (map_of (documents c) (ref_hash r))))) (snd item)))
              then [inconsistency (fst item) (snd item)] else [])
              (collect_refs ''case_numbers'' (documents c))))"
proof -
  have "\<forall>item \<in> set (collect_refs ''case_numbers'' (documents c)).
          \<forall>r \<in> set (snd item). map_of (documents c) (ref_hash r) \<noteq> None"
    using collect_refs_hash by blast
  from flag_all_ok [OF this] show ?thesis by (simp add: detect_contradictions_def Let_def)
qed

lemma detect_contradictions_again:
  "detect_contradictions c = Inr (c', out) \<Longrightarrow> detect_contradictions c' = Inr (c', out)"
  unfolding detect_contradictions_ok [of c] detect_contradictions_ok [of c'] by auto

lemma track_repeat_actors_again:
  "track_repeat_actors io (fst (track_repeat_actors io c)) = track_repeat_actors io c"
  by (simp add: track_repeat_actors_def Let_def)

lemma track_repeat_actors_frame:
  "snd (track_repeat_actors io (c\<lparr>actor_tracking := old\<rparr>)) = snd (track_repeat_actors io c)"
  by (simp add: track_repeat_actors_def Let_def)

text \<open>
  Claim C5. A second call of \<^verbatim>\<open>track_repeat_actors\<close> right after the first returns the
  same output and leaves the case as the first call left it; the output does not depend
  on what \<^verbatim>\<open>actor_tracking\<close> held before, it is rebuilt from the violations and the
  documents. \<^verbatim>\<open>detect_contradictions\<close> returns (it never raises), and a second call right
  after the first returns the same output and the same case.
\<close>

theorem rebuilds_idempotent:
  "track_repeat_actors io (fst (track_repeat_actors io c)) = track_repeat_actors io c
   \<and> snd (track_repeat_actors io (c\<lparr>actor_tracking := old\<rparr>)) = snd (track_repeat_actors io c)
   \<and> (\<exists>c' out. detect_contradictions c = Inr (c', out)
          \<and> detect_contradictions c' = Inr (c', out))"
proof (intro conjI)
  show "track_repeat_actors io (fst (track_repeat_actors io c)) = track_repeat_actors io c"
    by (rule track_repeat_actors_again)
  show "snd (track_repeat_actors io (c\<lparr>actor_tracking := old\<rparr>)) = snd (track_repeat_actors io c)"
    by (rule track_repeat_actors_frame)
  obtain c' out where r: "detect_contradictions c = Inr (c', out)"
    using detect_contradictions_ok [of c] by blast
  from detect_contradictions_again [OF r] r
  show "\<exists>c' out. detect_contradictions c = Inr (c', out) \<and> detect_contradictions c' = Inr (c', out)"
    by blast
qed

text \<open>
  In the example case the second call finds judge Smith with one document and score 3,
  as the first call does.
\<close>

theorem rebuilds_idempotent_witness:
  "map_sum id (\<lambda>c. map (\<lambda>item. (fst item, actor_documents (snd item), actor_severity_score (snd item)))
       (snd (track_repeat_actors sorted_list_of_fset
              (fst (track_repeat_actors sorted_list_of_fset c))))) example_case
     = Inr [(''Smith'', [''order.pdf''], 3)]"
proof -
  have "map_sum id (\<lambda>c. map (\<lambda>item. (fst item, actor_documents (snd item), actor_severity_score (snd item)))
       (snd (track_repeat_actors sorted_list_of_fset c))) example_case
     = Inr [(''Smith'', [''order.pdf''], 3)]"
    by code_simp
  then show ?thesis
    by (simp only: rebuilds_idempotent [THEN conjunct1])
qed

section \<open>Contradictions between the documents\<close>

lemma listings_mem:
  "(s, r) \<in> set (listings kind docs) \<longleftrightarrow>
     (\<exists>item \<in> set docs. s \<in> set (entity_strings (doc_legal_analysis (snd item)) kind)
        \<and> r = \<lparr>ref_document = filename (snd item), ref_hash = fst item\<rparr>)"
  by (auto simp: listings_def)

lemma listings_keys:
  "n \<in> fst ` set (listings kind docs) \<longleftrightarrow>
     (\<exists>item \<in> set docs. n \<in> set (entity_strings (doc_legal_analysis (snd item)) kind))"
  by (force simp: listings_def)

lemma listings_names:
  "map ref_document (map snd (filter (\<lambda>p. fst p = n) (listings kind docs)))
     = concat (map (\<lambda>item. map (\<lambda>s. filename (snd item))
                 (filter (\<lambda>s. s = n) (entity_strings (doc_legal_analysis (snd item)) kind))) docs)"
  by (induction docs) (simp_all add: listings_def filter_map comp_def)

lemma types_set:
  assumes "distinct (map fst docs)"
  shows "set (map (\<lambda>r. doc_type_of (doc_legal_analysis (the (map_of docs (ref_hash r)))))
               (map snd (filter (\<lambda>p. fst p = n) (listings kind docs))))
       = (\<lambda>d. doc_type_of (doc_legal_analysis d))
           ` {d \<in> snd ` set docs. n \<in> set (entity_strings (doc_legal_analysis d) kind)}"
    (is "?L = ?R")
proof (intro set_eqI iffI)
  fix t assume "t \<in> ?L"
  then obtain r where r: "(n, r) \<in> set (listings kind docs)"
    and t: "t = doc_type_of (doc_legal_analysis (the (map_of docs (ref_hash r))))"
    by auto
  from r obtain item where item: "item \<in> set docs"
    "n \<in> set (entity_strings (doc_legal_analysis (snd item)) kind)"
    "r = \<lparr>ref_document = filename (snd item), ref_hash = fst item\<rparr>"
    unfolding listings_mem by blast
  from item(1) assms have "map_of docs (fst item) = Some (snd item)" by simp
  with t item show "t \<in> ?R" by (auto simp: image_iff)
next
  fix t assume "t \<in> ?R"
  then obtain item where item: "item \<in> set docs"
    "n \<in> set (entity_strings (doc_legal_analysis (snd item)) kind)"
    and t: "t = doc_type_of (doc_legal_analysis (snd item))"
    by auto
  let ?r = "\<lparr>ref_document = filename (snd item), ref_hash = fst item\<rparr>"
  from item have "(n, ?r) \<in> set (listings kind docs)" unfolding listings_mem by blast
  moreover from item(1) assms have "map_of docs (fst item) = Some (snd item)" by simp
  ultimately show "t \<in> ?L" using t by (force simp: image_iff)
qed

lemma card_gt_one: "finite S \<Longrightarrow> 1 < card S \<longleftrightarrow> (\<exists>a \<in> S. \<exists>b \<in> S. a \<noteq> b)"
  using card_le_Suc0_iff_eq [of S] by (auto simp: not_le [symmetric])

lemma count_flagged:
  assumes "distinct (map fst items)"
  shows "length (filter (\<lambda>x. case_number x = n)
           (concat (map (\<lambda>item. if C item then [inconsistency (fst item) (snd item)] else []) items)))
       = (if \<exists>refs. (n, refs) \<in> set items \<and> C (n, refs) then 1 else 0)"
  using assms
proof (induction items)
  case Nil
  show ?case by simp
next
  case (Cons item items)
  obtain k refs where item: "item = (k, refs)" by (cases item)
  from Cons.prems item have notin: "\<And>refs'. (k, refs') \<notin> set items" by (auto simp: image_iff)
  from Cons have IH: "length (filter (\<lambda>x. case_number x = n)
           (concat (map (\<lambda>item. if C item then [inconsistency (fst item) (snd item)] else []) items)))
       = (if \<exists>refs. (n, refs) \<in> set items \<and> C (n, refs) then 1 else 0)" by simp
  show ?case
  proof (cases "k = n")
    case True
    with notin have "\<not> (\<exists>refs. (n, refs) \<in> set items \<and> C (n, refs))" by blast
    with IH True item notin show ?thesis by (auto simp: inconsistency_def)
  next
    case False
    with IH item show ?thesis by (auto simp: inconsistency_def)
  qed
qed

text \<open>
  Claim C4. \<^verbatim>\<open>detect_contradictions\<close> returns, and stores in the case, a list that
  holds for each case-number string exactly one entry if two documents that list the
  string have different classified types, and no entry otherwise (so none for a string
  that only documents of one type share). Every entry has the type
  \<^verbatim>\<open>case_number_inconsistency\<close> and the severity \<^verbatim>\<open>medium\<close> and names the documents that
  list its string, in the order of the documents.
\<close>

theorem detect_contradictions_rule:
  assumes "distinct (map fst (documents c))"
  shows "\<exists>out. detect_contradictions c = Inr (c\<lparr>contradictions := out\<rparr>, out)
     \<and> (\<forall>n. length (filter (\<lambda>x. case_number x = n) out)
           = (if \<exists>d1 \<in> snd ` set (documents c). \<exists>d2 \<in> snd ` set (documents c).
                   n \<in> set (entity_strings (doc_legal_analysis d1) ''case_numbers'')
                 \<and> n \<in> set (entity_strings (doc_legal_analysis d2) ''case_numbers'')
                 \<and> doc_type_of (doc_legal_analysis d1) \<noteq> doc_type_of (doc_legal_analysis d2)
              then 1 else 0))
     \<and> (\<forall>x \<in> set out.
           contradiction_type x = ''case_number_inconsistency''
         \<and> contradiction_severity x = ''medium''
         \<and> contradiction_documents x
             = concat (map (\<lambda>item. map (\<lambda>s. filename (snd item))
                   (filter (\<lambda>s. s = case_number x)
                      (entity_strings (doc_legal_analysis (snd item)) ''case_numbers'')))
                 (documents c)))"
proof -
  let ?docs = "documents c"
  let ?items = "collect_refs ''case_numbers'' ?docs"
  let ?L = "listings ''case_numbers'' ?docs"
  let ?ty = "\<lambda>r. doc_type_of (doc_legal_analysis (the (map_of ?docs (ref_hash r))))"
  let ?C = "\<lambda>item. 1 < card (set (map ?ty (snd item)))"
  let ?out = "concat (map (\<lambda>item. if ?C item then [inconsistency (fst item) (snd item)] else []) ?items)"
  let ?lists = "\<lambda>n d. n \<in> set (entity_strings (doc_legal_analysis d) ''case_numbers'')"
  have res: "detect_contradictions c = Inr (c\<lparr>contradictions := ?out\<rparr>, ?out)"
    by (rule detect_contradictions_ok)
  have refs_of: "refs = map snd (filter (\<lambda>p. fst p = n) ?L)" if "(n, refs) \<in> set ?items" for n refs
    using collect_refs_item(1) [OF that] .
  have "length (filter (\<lambda>x. case_number x = n) ?out)
           = (if \<exists>d1 \<in> snd ` set ?docs. \<exists>d2 \<in> snd ` set ?docs.
                   ?lists n d1 \<and> ?lists n d2
                 \<and> doc_type_of (doc_legal_analysis d1) \<noteq> doc_type_of (doc_legal_analysis d2)
              then 1 else 0)" for n
  proof -
    let ?S = "(\<lambda>d. doc_type_of (doc_legal_analysis d)) ` {d \<in> snd ` set ?docs. ?lists n d}"
    have S: "set (map ?ty (map snd (filter (\<lambda>p. fst p = n) ?L))) = ?S"
      by (rule types_set [OF assms])
    have fin: "finite ?S" by simp
    have "(\<exists>refs. (n, refs) \<in> set ?items \<and> ?C (n, refs)) \<longleftrightarrow> 1 < card ?S"
    proof
      assume "\<exists>refs. (n, refs) \<in> set ?items \<and> ?C (n, refs)"
      then obtain refs where "(n, refs) \<in> set ?items" "?C (n, refs)" by blast
      with refs_of [of n refs] S show "1 < card ?S" by simp
    next
      assume c: "1 < card ?S"
      have "?S \<noteq> {}"
      proof
        assume "?S = {}"
        then have "card ?S = 0" by (simp only: card.empty)
        with c show False by simp
      qed
      then obtain d where "d \<in> snd ` set ?docs" "?lists n d" by blast
      then obtain item where "item \<in> set ?docs" "?lists n (snd item)" by auto
      then have "n \<in> fst ` set ?L" unfolding listings_keys by blast
      then have "map_of ?items n = Some (map snd (filter (\<lambda>p. fst p = n) ?L))"
        by (simp add: collect_refs_map_of)
      then have m: "(n, map snd (filter (\<lambda>p. fst p = n) ?L)) \<in> set ?items"
        by (rule map_of_SomeD)
      have "?C (n, map snd (filter (\<lambda>p. fst p = n) ?L))"
        unfolding snd_conv S by (rule c)
      with m show "\<exists>refs. (n, refs) \<in> set ?items \<and> ?C (n, refs)" by blast
    qed
    also have "\<dots> \<longleftrightarrow> (\<exists>a \<in> ?S. \<exists>b \<in> ?S. a \<noteq> b)" by (rule card_gt_one [OF fin])
    also have "\<dots> \<longleftrightarrow> (\<exists>d1 \<in> snd ` set ?docs. \<exists>d2 \<in> snd ` set ?docs.
                   ?lists n d1 \<and> ?lists n d2
                 \<and> doc_type_of (doc_legal_analysis d1) \<noteq> doc_type_of (doc_legal_analysis d2))"
      by blast
    finally have eq: "(\<exists>refs. (n, refs) \<in> set ?items \<and> ?C (n, refs)) \<longleftrightarrow>
        (\<exists>d1 \<in> snd ` set ?docs. \<exists>d2 \<in> snd ` set ?docs.
                   ?lists n d1 \<and> ?lists n d2
                 \<and> doc_type_of (doc_legal_analysis d1) \<noteq> doc_type_of (doc_legal_analysis d2))" .
    show ?thesis
      unfolding count_flagged [of ?items n ?C, OF collect_refs_distinct] eq ..
  qed
  moreover have "contradiction_type x = ''case_number_inconsistency''
         \<and> contradiction_severity x = ''medium''
         \<and> contradiction_documents x
             = concat (map (\<lambda>item. map (\<lambda>s. filename (snd item))
                   (filter (\<lambda>s. s = case_number x)
                      (entity_strings (doc_legal_analysis (snd item)) ''case_numbers'')))
                 ?docs)" if "x \<in> set ?out" for x
  proof -
    from that obtain item where item: "item \<in> set ?items" and x: "x = inconsistency (fst item) (snd item)"
      by (auto split: if_splits)
    from item have "snd item = map snd (filter (\<lambda>p. fst p = fst item) ?L)"
      using refs_of [of "fst item" "snd item"] by simp
    then have "map ref_document (snd item)
        = concat (map (\<lambda>it. map (\<lambda>s. filename (snd it))
                   (filter (\<lambda>s. s = fst item)
                      (entity_strings (doc_legal_analysis (snd it)) ''case_numbers''))) ?docs)"
      using listings_names [of "fst item" "''case_numbers''" ?docs] by simp
    with x show ?thesis by (simp add: inconsistency_def)
  qed
  ultimately show ?thesis using res by blast
qed


text \<open>
  In the example case the order and the first motion share A-1, the two motions share
  B-2: there is one entry, for A-1, naming the order and the first motion.
\<close>

theorem detect_contradictions_rule_witness:
  "\<exists>c out. example_case = Inr c
     \<and> detect_contradictions c = Inr (c\<lparr>contradictions := out\<rparr>, out)
     \<and> length (filter (\<lambda>x. case_number x = ''A-1'') out) = 1
     \<and> length (filter (\<lambda>x. case_number x = ''B-2'') out) = 0
     \<and> map contradiction_documents out = [[''order.pdf'', ''motion.pdf'']]"
proof -
  have ok: "case example_case of
              Inl e \<Rightarrow> False
            | Inr c \<Rightarrow>
                distinct (map fst (documents c))
              \<and> (\<exists>d1 \<in> snd ` set (documents c). \<exists>d2 \<in> snd ` set (documents c).
                   ''A-1'' \<in> set (entity_strings (doc_legal_analysis d1) ''case_numbers'')
                 \<and> ''A-1'' \<in> set (entity_strings (doc_legal_analysis d2) ''case_numbers'')
                 \<and> doc_type_of (doc_legal_analysis d1) \<noteq> doc_type_of (doc_legal_analysis d2))
              \<and> \<not> (\<exists>d1 \<in> snd ` set (documents c). \<exists>d2 \<in> snd ` set (documents c).
                   ''B-2'' \<in> set (entity_strings (doc_legal_analysis d1) ''case_numbers'')
                 \<and> ''B-2'' \<in> set (entity_strings (doc_legal_analysis d2) ''case_numbers'')
                 \<and> doc_type_of (doc_legal_analysis d1) \<noteq> doc_type_of (doc_legal_analysis d2))"
    by code_simp
  have names: "map_sum id (\<lambda>c. map_sum id (\<lambda>r. map contradiction_documents (snd r))
                  (detect_contradictions c)) example_case
                = Inr (Inr [[''order.pdf'', ''motion.pdf'']])"
    by code_simp
  show ?thesis
  proof (cases example_case)
    case (Inl e)
    from ok show ?thesis by (simp add: Inl)
  next
    case (Inr c)
    from ok have all: "distinct (map fst (documents c))
              \<and> (\<exists>d1 \<in> snd ` set (documents c). \<exists>d2 \<in> snd ` set (documents c).
                   ''A-1'' \<in> set (entity_strings (doc_legal_analysis d1) ''case_numbers'')
                 \<and> ''A-1'' \<in> set (entity_strings (doc_legal_analysis d2) ''case_numbers'')
                 \<and> doc_type_of (doc_legal_analysis d1) \<noteq> doc_type_of (doc_legal_analysis d2))
              \<and> \<not> (\<exists>d1 \<in> snd ` set (documents c). \<exists>d2 \<in> snd ` set (documents c).
                   ''B-2'' \<in> set (entity_strings (doc_legal_analysis d1) ''case_numbers'')
                 \<and> ''B-2'' \<in> set (entity_strings (doc_legal_analysis d2) ''case_numbers'')
                 \<and> doc_type_of (doc_legal_analysis d1) \<noteq> doc_type_of (doc_legal_analysis d2))"
      by (simp only: Inr sum.case simp_thms)
    from all have d: "distinct (map fst (documents c))" by (rule conjunct1)
    from all have a: "\<exists>d1 \<in> snd ` set (documents c). \<exists>d2 \<in> snd ` set (documents c).
                   ''A-1'' \<in> set (entity_strings (doc_legal_analysis d1) ''case_numbers'')
                 \<and> ''A-1'' \<in> set (entity_strings (doc_legal_analysis d2) ''case_numbers'')
                 \<and> doc_type_of (doc_legal_analysis d1) \<noteq> doc_type_of (doc_legal_analysis d2)"
      by (rule conjunct1 [OF conjunct2])
    from all have b: "\<not> (\<exists>d1 \<in> snd ` set (documents c). \<exists>d2 \<in> snd ` set (documents c).
                   ''B-2'' \<in> set (entity_strings (doc_legal_analysis d1) ''case_numbers'')
                 \<and> ''B-2'' \<in> set (entity_strings (doc_legal_analysis d2) ''case_numbers'')
                 \<and> doc_type_of (doc_legal_analysis d1) \<noteq> doc_type_of (doc_legal_analysis d2))"
      by (rule conjunct2 [OF conjunct2])
    from detect_contradictions_rule [OF d] obtain out
      where out: "detect_contradictions c = Inr (c\<lparr>contradictions := out\<rparr>, out)"
        and cnt: "\<forall>n. length (filter (\<lambda>x. case_number x = n) out)
           = (if \<exists>d1 \<in> snd ` set (documents c). \<exists>d2 \<in> snd ` set (documents c).
                   n \<in> set (entity_strings (doc_legal_analysis d1) ''case_numbers'')
                 \<and> n \<in> set (entity_strings (doc_legal_analysis d2) ''case_numbers'')
                 \<and> doc_type_of (doc_legal_analysis d1) \<noteq> doc_type_of (doc_legal_analysis d2)
              then 1 else 0)"
      by blast
    from spec [OF cnt, of "''A-1''"]
    have c1: "length (filter (\<lambda>x. case_number x = ''A-1'') out) = 1"
      by (simp only: a if_True)
    from spec [OF cnt, of "''B-2''"]
    have c2: "length (filter (\<lambda>x. case_number x = ''B-2'') out) = 0"
      by (simp only: b if_False)
    from names have c3: "map contradiction_documents out = [[''order.pdf'', ''motion.pdf'']]"
      by (simp add: Inr out)
    show ?thesis
      by (rule exI [of _ c], rule exI [of _ out]) (intro conjI Inr out c1 c2 c3)
  qed
qed

section \<open>Merging the entities of a document\<close>









section \<open>The timeline of the case\<close>

lemma first_parse_none:
  "first_parse s fmts = None \<longleftrightarrow> (\<forall>fmt \<in> set fmts. strptime s fmt = None)"
  by (induction fmts) (auto split: option.splits)

lemma first_parse_first:
  "first_parse s fmts = Some d
     \<longleftrightarrow> (\<exists>i < length fmts. strptime s (fmts ! i) = Some d
            \<and> (\<forall>j < i. strptime s (fmts ! j) = None))"
proof (induction fmts)
  case Nil
  then show ?case by simp
next
  case (Cons fmt fmts)
  show ?case
  proof (cases "strptime s fmt")
    case (Some d')
    have "(\<exists>i < length (fmt # fmts). strptime s ((fmt # fmts) ! i) = Some d
            \<and> (\<forall>j < i. strptime s ((fmt # fmts) ! j) = None)) \<longleftrightarrow> d' = d"
    proof
      assume "\<exists>i < length (fmt # fmts). strptime s ((fmt # fmts) ! i) = Some d
            \<and> (\<forall>j < i. strptime s ((fmt # fmts) ! j) = None)"
      then obtain i where i: "strptime s ((fmt # fmts) ! i) = Some d"
        and j: "\<forall>j < i. strptime s ((fmt # fmts) ! j) = None" by blast
      have "i = 0"
      proof (rule ccontr)
        assume "i \<noteq> 0"
        then have "0 < i" by simp
        with j have "strptime s ((fmt # fmts) ! 0) = None" by blast
        with Some show False by simp
      qed
      with i Some show "d' = d" by simp
    next
      assume "d' = d"
      with Some have "strptime s ((fmt # fmts) ! 0) = Some d" by simp
      then show "\<exists>i < length (fmt # fmts). strptime s ((fmt # fmts) ! i) = Some d
            \<and> (\<forall>j < i. strptime s ((fmt # fmts) ! j) = None)"
        by (intro exI [of _ 0]) simp
    qed
    with Some show ?thesis by simp
  next
    case None
    have "(\<exists>i < length (fmt # fmts). strptime s ((fmt # fmts) ! i) = Some d
            \<and> (\<forall>j < i. strptime s ((fmt # fmts) ! j) = None))
          \<longleftrightarrow> (\<exists>i < length fmts. strptime s (fmts ! i) = Some d
            \<and> (\<forall>j < i. strptime s (fmts ! j) = None))" (is "?L \<longleftrightarrow> ?R")
    proof
      assume ?L
      then obtain i where l: "i < length (fmt # fmts)"
        and i: "strptime s ((fmt # fmts) ! i) = Some d"
        and j: "\<forall>j < i. strptime s ((fmt # fmts) ! j) = None" by blast
      from i None obtain i' where i': "i = Suc i'" by (cases i) auto
      from l i i' have "i' < length fmts" "strptime s (fmts ! i') = Some d" by simp_all
      moreover have "strptime s (fmts ! j') = None" if "j' < i'" for j'
        using j [rule_format, of "Suc j'"] that i' by simp
      ultimately show ?R by blast
    next
      assume ?R
      then obtain i where l: "i < length fmts" and i: "strptime s (fmts ! i) = Some d"
        and j: "\<forall>j < i. strptime s (fmts ! j) = None" by blast
      have "strptime s ((fmt # fmts) ! j') = None" if "j' < Suc i" for j'
        using that j None by (cases j') auto
      with l i show ?L by (intro exI [of _ "Suc i"]) simp
    qed
    with None Cons.IH show ?thesis by simp
  qed
qed

lemma doc_events_strs:
  "map date_str (doc_events item)
     = filter (\<lambda>s. parse_date s \<noteq> None) (entity_strings (doc_legal_analysis (snd item)) ''dates'')"
proof -
  have "map date_str (concat (map (\<lambda>s. case parse_date s of
                              None \<Rightarrow> []
                            | Some parsed \<Rightarrow> [make_event h doc s parsed]) ds))
          = filter (\<lambda>s. parse_date s \<noteq> None) ds" for h doc ds
    by (induction ds) (auto simp: make_event_def split: option.splits)
  then show ?thesis
    by (simp add: doc_events_def entity_strings_def split: option.splits)
qed

lemma timeline_events_strs:
  "map date_str (timeline_events docs)
     = filter (\<lambda>s. parse_date s \<noteq> None)
         (concat (map (\<lambda>item. entity_strings (doc_legal_analysis (snd item)) ''dates'') docs))"
  by (induction docs) (simp_all add: timeline_events_def doc_events_strs)

lemma doc_events_dates:
  assumes "e \<in> set (doc_events item)"
  shows "\<exists>d. date e = Some (Datetime d) \<and> parse_date (date_str e) = Some d
           \<and> document e = filename (snd item)"
  using assms
  by (auto simp: doc_events_def make_event_def split: option.splits)

lemma timeline_events_dates:
  assumes "e \<in> set (timeline_events docs)"
  shows "\<exists>d. date e = Some (Datetime d) \<and> parse_date (date_str e) = Some d"
  using assms doc_events_dates by (fastforce simp: timeline_events_def)

lemma sort_events_dates:
  assumes "\<forall>e \<in> set evs. \<exists>d. date e = Some (Datetime d)"
  shows "sort_events evs = Inr (sort_key (\<lambda>e. key_date (event_key e)) evs)"
proof -
  have "is_date_key (event_key e)" if "e \<in> set evs" for e
    using assms that by (auto simp: event_key_def is_date_key_def)
  then have "list_all (\<lambda>e. is_date_key (event_key e)) evs" by (simp add: list_all_iff)
  then show ?thesis by (simp add: sort_events_def)
qed

text \<open>
  Claim C6. \<^verbatim>\<open>generate_timeline\<close> never raises. It returns, and stores as the timeline
  of the case in place of the old one, the events of the documents sorted by their
  dates in ascending order, by a stable sort: the same events, each as often as before.
  There is one event for each date string of the documents that parses, in the order of
  the documents and of their lists; a string that no format parses gives no event. The
  date of an event is what \<^verbatim>\<open>_parse_date\<close> returns for its string: the result of the first
  format of the list, in its order, that parses the stripped string, and \<^verbatim>\<open>None\<close> if
  none does.
\<close>

theorem generate_timeline_sorted:
  "\<exists>evs. generate_timeline c = Inr (c\<lparr>timeline := evs\<rparr>, evs)
     \<and> set evs = set (timeline_events (documents c))
     \<and> length evs = length (timeline_events (documents c))
     \<and> sorted (map (\<lambda>e. key_date (event_key e)) evs)
     \<and> (\<forall>k. filter (\<lambda>e. key_date (event_key e) = k) evs
              = filter (\<lambda>e. key_date (event_key e) = k) (timeline_events (documents c)))
     \<and> (\<forall>e \<in> set evs. \<exists>d. date e = Some (Datetime d) \<and> parse_date (date_str e) = Some d
              \<and> key_date (event_key e) = (year d, month d, day d))
     \<and> map date_str (timeline_events (documents c))
          = filter (\<lambda>s. parse_date s \<noteq> None)
              (concat (map (\<lambda>item. entity_strings (doc_legal_analysis (snd item)) ''dates'')
                 (documents c)))
     \<and> (\<forall>s d. parse_date s = Some d
           \<longleftrightarrow> (\<exists>i < length date_formats. strptime (strip s) (date_formats ! i) = Some d
                  \<and> (\<forall>j < i. strptime (strip s) (date_formats ! j) = None)))
     \<and> (\<forall>s. parse_date s = None
           \<longleftrightarrow> (\<forall>fmt \<in> set date_formats. strptime (strip s) fmt = None))"
proof -
  let ?key = "\<lambda>e. key_date (event_key e)"
  let ?evs = "sort_key ?key (timeline_events (documents c))"
  have s: "sort_events (timeline_events (documents c)) = Inr ?evs"
    using timeline_events_dates by (intro sort_events_dates) blast
  have g: "generate_timeline c = Inr (c\<lparr>timeline := ?evs\<rparr>, ?evs)"
    by (simp add: generate_timeline_def s)
  have d: "\<exists>d. date e = Some (Datetime d) \<and> parse_date (date_str e) = Some d
              \<and> ?key e = (year d, month d, day d)" if "e \<in> set ?evs" for e
  proof -
    from that have "e \<in> set (timeline_events (documents c))" by simp
    from timeline_events_dates [OF this] obtain d
      where "date e = Some (Datetime d)" "parse_date (date_str e) = Some d" by blast
    then show ?thesis by (auto simp: event_key_def key_date_def date_tuple_def)
  qed
  have st: "filter (\<lambda>e. ?key e = k) ?evs = filter (\<lambda>e. ?key e = k) (timeline_events (documents c))"
    for k by (rule sort_key_stable)
  show ?thesis
    apply (rule exI [of _ ?evs])
    apply (intro conjI)
            apply (rule g)
           apply simp
          apply simp
         apply (rule sorted_sort_key)
        apply (simp only: st)
        apply simp
       apply (intro ballI d, assumption)
      apply (rule timeline_events_strs)
     apply (simp only: parse_date_def first_parse_first)
     apply simp
    apply (simp only: parse_date_def first_parse_none)
    apply simp
    done
qed


text \<open>
  The three documents of the example case list the dates 01/15/2023 (and a string that
  is no date), March 3, 2022 and 2021-06-01: the timeline has the three events in the
  order 2021-06-01, 2022-03-03, 2023-01-15.
\<close>

theorem generate_timeline_sorted_witness:
  "\<exists>c evs. example_case = Inr c
     \<and> generate_timeline c = Inr (c\<lparr>timeline := evs\<rparr>, evs)
     \<and> map date_str evs = [''2021-06-01'', ''March 3, 2022'', ''01/15/2023'']
     \<and> map date evs = [Some (Datetime \<lparr>year = 2021, month = 6, day = 1\<rparr>),
                       Some (Datetime \<lparr>year = 2022, month = 3, day = 3\<rparr>),
                       Some (Datetime \<lparr>year = 2023, month = 1, day = 15\<rparr>)]
     \<and> sorted (map (\<lambda>e. key_date (event_key e)) evs)
     \<and> map date_str (timeline_events (documents c))
         = [''01/15/2023'', ''March 3, 2022'', ''2021-06-01'']
     \<and> parse_date ''not a date'' = None"
proof -
  have ev: "map_sum id (\<lambda>c. map_sum id (\<lambda>r. map (\<lambda>e. (date_str e, date e)) (snd r))
                (generate_timeline c)) example_case
              = Inr (Inr [(''2021-06-01'', Some (Datetime \<lparr>year = 2021, month = 6, day = 1\<rparr>)),
                          (''March 3, 2022'', Some (Datetime \<lparr>year = 2022, month = 3, day = 3\<rparr>)),
                          (''01/15/2023'', Some (Datetime \<lparr>year = 2023, month = 1, day = 15\<rparr>))])"
    by code_simp
  have strs: "map_sum id (\<lambda>c. concat (map (\<lambda>item. entity_strings (doc_legal_analysis (snd item)) ''dates'')
                 (documents c))) example_case
              = Inr [''01/15/2023'', ''not a date'', ''March 3, 2022'', ''2021-06-01'']"
    by code_simp
  have p1: "parse_date ''01/15/2023'' \<noteq> None" by code_simp
  have p2: "parse_date ''not a date'' = None" by code_simp
  have p3: "parse_date ''March 3, 2022'' \<noteq> None" by code_simp
  have p4: "parse_date ''2021-06-01'' \<noteq> None" by code_simp
  show ?thesis
  proof (cases example_case)
    case (Inl e)
    from ev show ?thesis by (simp add: Inl)
  next
    case (Inr c)
    from generate_timeline_sorted [of c] obtain evs
      where g: "generate_timeline c = Inr (c\<lparr>timeline := evs\<rparr>, evs)"
        and sorted: "sorted (map (\<lambda>e. key_date (event_key e)) evs)"
        and kept: "map date_str (timeline_events (documents c))
          = filter (\<lambda>s. parse_date s \<noteq> None)
              (concat (map (\<lambda>item. entity_strings (doc_legal_analysis (snd item)) ''dates'')
                 (documents c)))"
      by blast
    from ev have m: "map (\<lambda>e. (date_str e, date e)) evs
              = [(''2021-06-01'', Some (Datetime \<lparr>year = 2021, month = 6, day = 1\<rparr>)),
                 (''March 3, 2022'', Some (Datetime \<lparr>year = 2022, month = 3, day = 3\<rparr>)),
                 (''01/15/2023'', Some (Datetime \<lparr>year = 2023, month = 1, day = 15\<rparr>))]"
      by (simp add: Inr g)
    have "map date_str evs = map fst (map (\<lambda>e. (date_str e, date e)) evs)" by simp
    then have a: "map date_str evs = [''2021-06-01'', ''March 3, 2022'', ''01/15/2023'']"
      unfolding m by simp
    have "map date evs = map snd (map (\<lambda>e. (date_str e, date e)) evs)" by simp
    then have b: "map date evs = [Some (Datetime \<lparr>year = 2021, month = 6, day = 1\<rparr>),
                       Some (Datetime \<lparr>year = 2022, month = 3, day = 3\<rparr>),
                       Some (Datetime \<lparr>year = 2023, month = 1, day = 15\<rparr>)]"
      unfolding m by simp
    from strs have "concat (map (\<lambda>item. entity_strings (doc_legal_analysis (snd item)) ''dates'')
                 (documents c)) = [''01/15/2023'', ''not a date'', ''March 3, 2022'', ''2021-06-01'']"
      by (simp add: Inr)
    with kept have k: "map date_str (timeline_events (documents c))
         = [''01/15/2023'', ''March 3, 2022'', ''2021-06-01'']"
      by (simp add: p1 p2 p3 p4)
    show ?thesis
      by (rule exI [of _ c], rule exI [of _ evs]) (intro conjI Inr g a b sorted k p2)
  qed
qed

section \<open>Saving a case and loading it again\<close>

text \<open>Assignments to keys of a dict, one for each item that a function selects.\<close>

lemma dict_set_middle:
  "k \<notin> fst ` set pre \<Longrightarrow> dict_set (pre @ (k, v) # post) k w = pre @ (k, w) # post"
  by (induction pre) auto

lemma foldl_assign:
  assumes "distinct (map fst (pre @ post))"
  shows "foldl (\<lambda>d item. case h (snd item) of None \<Rightarrow> d | Some w \<Rightarrow> dict_set d (fst item) w)
           (map (\<lambda>item. (fst item, case h (snd item) of None \<Rightarrow> snd item | Some w \<Rightarrow> w)) pre @ post)
           post
         = map (\<lambda>item. (fst item, case h (snd item) of None \<Rightarrow> snd item | Some w \<Rightarrow> w)) (pre @ post)"
  using assms
proof (induction post arbitrary: pre)
  case Nil
  then show ?case by simp
next
  case (Cons item post)
  let ?conv = "\<lambda>item. (fst item, case h (snd item) of None \<Rightarrow> snd item | Some w \<Rightarrow> w)"
  let ?step = "\<lambda>d item. case h (snd item) of None \<Rightarrow> d | Some w \<Rightarrow> dict_set d (fst item) w"
  from Cons.prems have d: "distinct (map fst ((pre @ [item]) @ post))" by simp
  from Cons.prems have k: "fst item \<notin> fst ` set (map ?conv pre)" by (auto simp: image_iff)
  have "?step (map ?conv pre @ item # post) item = map ?conv (pre @ [item]) @ post"
  proof (cases "h (snd item)")
    case None
    then show ?thesis by (cases item) simp
  next
    case (Some w)
    have "dict_set (map ?conv pre @ (fst item, snd item) # post) (fst item) w
            = map ?conv pre @ (fst item, w) # post"
      by (rule dict_set_middle [OF k])
    with Some show ?thesis by simp
  qed
  then have "foldl ?step (map ?conv pre @ item # post) (item # post)
               = foldl ?step (map ?conv (pre @ [item]) @ post) post"
    by simp
  also have "\<dots> = map ?conv ((pre @ [item]) @ post)" by (rule Cons.IH [OF d])
  finally show ?case by simp
qed

lemma listify_map:
  assumes "distinct (map fst ents)"
  shows "listify iter_order ents
           = map (\<lambda>item. (fst item, case snd item of PySet s \<Rightarrow> PyList (iter_order s) | v \<Rightarrow> v)) ents"
proof -
  let ?h = "\<lambda>v. case v of PySet s \<Rightarrow> Some (PyList (iter_order s)) | _ \<Rightarrow> None"
  have step: "(\<lambda>d item. case snd item of
                        PySet s \<Rightarrow> dict_set d (fst item) (PyList (iter_order s))
                      | _ \<Rightarrow> d)
            = (\<lambda>d item. case ?h (snd item) of None \<Rightarrow> d | Some w \<Rightarrow> dict_set d (fst item) w)"
    by (intro ext) (simp split: entity_value.splits)
  have conv: "(\<lambda>item. (fst item, case snd item of PySet s \<Rightarrow> PyList (iter_order s) | v \<Rightarrow> v))
            = (\<lambda>item. (fst item, case ?h (snd item) of None \<Rightarrow> snd item | Some w \<Rightarrow> w))"
    by (intro ext) (simp split: entity_value.splits)
  from assms have "distinct (map fst ([] @ ents))" by simp
  from foldl_assign [OF this, of ?h] show ?thesis
    unfolding listify_def step conv by simp
qed

lemma setify_map:
  assumes "distinct (map fst ents)"
  shows "setify ents
           = map (\<lambda>item. (fst item, case snd item of PyList xs \<Rightarrow> PySet (fset_of_list xs) | v \<Rightarrow> v)) ents"
proof -
  let ?h = "\<lambda>v. case v of PyList xs \<Rightarrow> Some (PySet (fset_of_list xs)) | _ \<Rightarrow> None"
  have step: "(\<lambda>d item. case snd item of
                        PyList xs \<Rightarrow> dict_set d (fst item) (PySet (fset_of_list xs))
                      | _ \<Rightarrow> d)
            = (\<lambda>d item. case ?h (snd item) of None \<Rightarrow> d | Some w \<Rightarrow> dict_set d (fst item) w)"
    by (intro ext) (simp split: entity_value.splits)
  have conv: "(\<lambda>item. (fst item, case snd item of PyList xs \<Rightarrow> PySet (fset_of_list xs) | v \<Rightarrow> v))
            = (\<lambda>item. (fst item, case ?h (snd item) of None \<Rightarrow> snd item | Some w \<Rightarrow> w))"
    by (intro ext) (simp split: entity_value.splits)
  from assms have "distinct (map fst ([] @ ents))" by simp
  from foldl_assign [OF this, of ?h] show ?thesis
    unfolding setify_def step conv by simp
qed

lemma map_of_map_value:
  "map_of (map (\<lambda>item. (fst item, f (snd item))) ents) k = map_option f (map_of ents k)"
  by (induction ents) auto


lemma saved_store:
  "fst (save_case_session iter_order default_str st c)
     = st(entities c := listify iter_order (st (entities c)))"
  by (simp add: save_case_session_def Let_def shallow_copy_def prepare_for_serialization_def)

lemma saved_file:
  "snd (save_case_session iter_order default_str st c)
     = \<lparr>snap_entities = map (\<lambda>item. (fst item, json_dump_value default_str (snd item)))
                         (listify iter_order (st (entities c))),
        snap_violations = violations c,
        snap_timeline = map json_dump_event (timeline c)\<rparr>"
  by (simp add: save_case_session_def Let_def shallow_copy_def prepare_for_serialization_def
      json_dump_def)

text \<open>
  Claim C10. \<^verbatim>\<open>save_case_session\<close> changes the dict of the entities that the caller's
  case refers to: afterwards it has the same keys, every value that was a set is the
  list of its elements in the order of iteration, every other value is as before, and
  no value is a set any more. No other object of the store is changed.
\<close>

theorem save_case_session_mutates_entities:
  assumes "distinct (map fst (in_store st c))"
  shows "map fst (in_store (fst (save_case_session iter_order default_str st c)) c)
           = map fst (in_store st c)
     \<and> (\<forall>k v. map_of (in_store st c) k = Some v \<longrightarrow>
           map_of (in_store (fst (save_case_session iter_order default_str st c)) c) k
             = Some (case v of PySet s \<Rightarrow> PyList (iter_order s) | PyList xs \<Rightarrow> PyList xs
                     | PyStr x \<Rightarrow> PyStr x))
     \<and> (\<forall>k s. map_of (in_store (fst (save_case_session iter_order default_str st c)) c) k
                 \<noteq> Some (PySet s))
     \<and> (\<forall>a. a \<noteq> entities c \<longrightarrow> fst (save_case_session iter_order default_str st c) a = st a)"
proof -
  let ?conv = "\<lambda>v. case v of PySet s \<Rightarrow> PyList (iter_order s) | PyList xs \<Rightarrow> PyList xs
                     | PyStr x \<Rightarrow> PyStr x"
  from assms have d: "distinct (map fst (st (entities c)))" by (simp add: in_store_def)
  have after: "in_store (fst (save_case_session iter_order default_str st c)) c
                 = map (\<lambda>item. (fst item, ?conv (snd item))) (st (entities c))"
    unfolding in_store_def saved_store listify_map [OF d] by simp
  have keys: "map fst (map (\<lambda>item. (fst item, ?conv (snd item))) (st (entities c)))
                = map fst (st (entities c))"
    by (simp add: comp_def)
  have vals: "map_of (map (\<lambda>item. (fst item, ?conv (snd item))) (st (entities c))) k
                = Some (?conv v)" if "map_of (st (entities c)) k = Some v" for k v
    using that by (simp add: map_of_map_value)
  have sets: "map_of (map (\<lambda>item. (fst item, ?conv (snd item))) (st (entities c))) k
                \<noteq> Some (PySet s)" for k s
    by (auto simp: map_of_map_value split: entity_value.splits)
  have others: "fst (save_case_session iter_order default_str st c) a = st a"
    if "a \<noteq> entities c" for a
    using that by (simp add: saved_store)
  show ?thesis
  proof (intro conjI allI impI)
    show "map fst (in_store (fst (save_case_session iter_order default_str st c)) c)
            = map fst (in_store st c)"
      unfolding after keys by (simp only: in_store_def)
  next
    fix k v assume "map_of (in_store st c) k = Some v"
    then have "map_of (st (entities c)) k = Some v" by (simp only: in_store_def)
    then show "map_of (in_store (fst (save_case_session iter_order default_str st c)) c) k
                 = Some (?conv v)"
      unfolding after by (rule vals)
  next
    fix k s
    show "map_of (in_store (fst (save_case_session iter_order default_str st c)) c) k
            \<noteq> Some (PySet s)"
      unfolding after by (rule sets)
  next
    fix a assume "a \<noteq> entities c"
    then show "fst (save_case_session iter_order default_str st c) a = st a" by (rule others)
  qed
qed

text \<open>
  A case whose entities hold two sets and a list: after the save the caller's case holds
  three lists.
\<close>

theorem save_case_session_mutates_entities_witness:
  "in_store example_store example_held
     = [(''judges'', PySet {||}), (''case_numbers'', PySet {|''A-1'', ''B-2''|}),
        (''courts'', PyList [''Family Court'', ''Family Court''])]
   \<and> map fst (in_store (fst (save_case_session sorted_list_of_fset example_repr
                  example_store example_held)) example_held)
       = [''judges'', ''case_numbers'', ''courts'']
   \<and> map_of (in_store (fst (save_case_session sorted_list_of_fset example_repr
                  example_store example_held)) example_held) ''judges'' = Some (PyList [])
   \<and> map_of (in_store (fst (save_case_session sorted_list_of_fset example_repr
                  example_store example_held)) example_held) ''case_numbers''
       = Some (PyList [''A-1'', ''B-2''])
   \<and> map_of (in_store (fst (save_case_session sorted_list_of_fset example_repr
                  example_store example_held)) example_held) ''courts''
       = Some (PyList [''Family Court'', ''Family Court''])"
proof -
  have before: "in_store example_store example_held
     = [(''judges'', PySet {||}), (''case_numbers'', PySet {|''A-1'', ''B-2''|}),
        (''courts'', PyList [''Family Court'', ''Family Court''])]"
    by (simp add: in_store_def example_store_def example_held_def)
  have d: "distinct (map fst (in_store example_store example_held))"
    unfolding before by simp
  have order: "sorted_list_of_fset {|''A-1'', ''B-2''|} = [''A-1'', ''B-2'']" by code_simp
  have none: "sorted_list_of_fset ({||} :: string fset) = []" by code_simp
  note after = save_case_session_mutates_entities [OF d, of sorted_list_of_fset example_repr]
  have keys: "map fst (in_store (fst (save_case_session sorted_list_of_fset example_repr
                  example_store example_held)) example_held)
       = [''judges'', ''case_numbers'', ''courts'']"
    using after [THEN conjunct1] unfolding before by simp
  have j: "map_of (in_store example_store example_held) ''judges'' = Some (PySet {||})"
    unfolding before by simp
  have n: "map_of (in_store example_store example_held) ''case_numbers''
             = Some (PySet {|''A-1'', ''B-2''|})"
    unfolding before by simp
  have c: "map_of (in_store example_store example_held) ''courts''
             = Some (PyList [''Family Court'', ''Family Court''])"
    unfolding before by simp
  note vals = after [THEN conjunct2, THEN conjunct1, rule_format]
  have j': "map_of (in_store (fst (save_case_session sorted_list_of_fset example_repr
                  example_store example_held)) example_held) ''judges'' = Some (PyList [])"
    using vals [OF j] by (simp add: none)
  have n': "map_of (in_store (fst (save_case_session sorted_list_of_fset example_repr
                  example_store example_held)) example_held) ''case_numbers''
       = Some (PyList [''A-1'', ''B-2''])"
    using vals [OF n] by (simp add: order)
  have c': "map_of (in_store (fst (save_case_session sorted_list_of_fset example_repr
                  example_store example_held)) example_held) ''courts''
       = Some (PyList [''Family Court'', ''Family Court''])"
    using vals [OF c] by simp
  show ?thesis by (intro conjI before keys j' n' c')
qed


text \<open>What a saved case is when it has been loaded again.\<close>

lemma reloaded_case:
  assumes d: "distinct (map fst (st (entities c)))"
  shows "load_case_session (Some (snd (save_case_session iter_order default_str st c)))
     = Some \<lparr>snap_entities =
               map (\<lambda>item. (fst item,
                      case snd item of
                        PySet s \<Rightarrow> PySet (fset_of_list (iter_order s))
                      | PyList xs \<Rightarrow> PySet (fset_of_list xs)
                      | PyStr x \<Rightarrow> PyStr x)) (st (entities c)),
             snap_violations = violations c,
             snap_timeline = map json_dump_event (timeline c)\<rparr>"
proof -
  let ?ents = "st (entities c)"
  let ?read = "map (\<lambda>item. (fst item, json_load_value (snd item)))
                 (map (\<lambda>item. (fst item, json_dump_value default_str (snd item)))
                    (listify iter_order ?ents))"
  have read: "?read = map (\<lambda>item. (fst item,
                      case snd item of PySet s \<Rightarrow> PyList (iter_order s) | PyList xs \<Rightarrow> PyList xs
                      | PyStr x \<Rightarrow> PyStr x)) ?ents"
    unfolding listify_map [OF d]
    by (simp add: json_load_value_def json_dump_value_def split: entity_value.splits)
  have "distinct (map fst ?read)" unfolding read using d by (simp add: comp_def)
  from setify_map [OF this]
  have "setify ?read = map (\<lambda>item. (fst item,
                      case snd item of
                        PySet s \<Rightarrow> PySet (fset_of_list (iter_order s))
                      | PyList xs \<Rightarrow> PySet (fset_of_list xs)
                      | PyStr x \<Rightarrow> PyStr x)) ?ents"
    unfolding read by (simp split: entity_value.splits)
  then show ?thesis
    by (simp add: load_case_session_def prepare_from_serialization_def json_load_def saved_file)
qed

text \<open>
  Claim C9. A case is saved and loaded again; its entities are a dict, and iterating
  over a set lists its elements. The file holds, for every value that was a set, the
  array of its elements in the order of iteration. The loaded case has the same entity
  keys in the same order; a value that was a set is the same set again, a value that
  was a list is the set of its elements, so every value has the members it had. The
  list of the violations is the same list.
\<close>

theorem save_load_round_trip:
  assumes "distinct (map fst (in_store st c))" and "\<forall>S. set (iter_order S) = fset S"
  shows "\<exists>r. load_case_session (Some (snd (save_case_session iter_order default_str st c))) = Some r
     \<and> snap_violations r = violations c
     \<and> map fst (snap_entities r) = map fst (in_store st c)
     \<and> (\<forall>k v. map_of (in_store st c) k = Some v \<longrightarrow>
           map_of (snap_entities r) k
             = Some (case v of PySet S \<Rightarrow> PySet S | PyList xs \<Rightarrow> PySet (fset_of_list xs)
                     | PyStr x \<Rightarrow> PyStr x)
           \<and> members (case v of PySet S \<Rightarrow> PySet S | PyList xs \<Rightarrow> PySet (fset_of_list xs)
                        | PyStr x \<Rightarrow> PyStr x) = members v)
     \<and> (\<forall>k S. map_of (in_store st c) k = Some (PySet S) \<longrightarrow>
           map_of (snap_entities (snd (save_case_session iter_order default_str st c))) k
             = Some (JArray (iter_order S)))"
proof -
  let ?restored = "\<lambda>v. case v of PySet S \<Rightarrow> PySet S | PyList xs \<Rightarrow> PySet (fset_of_list xs)
                     | PyStr x \<Rightarrow> PyStr x"
  let ?r = "\<lparr>snap_entities = map (\<lambda>item. (fst item, ?restored (snd item))) (st (entities c)),
             snap_violations = violations c,
             snap_timeline = map json_dump_event (timeline c)\<rparr>"
  from assms(1) have d: "distinct (map fst (st (entities c)))" by (simp add: in_store_def)
  have same: "fset_of_list (iter_order S) = S" for S
    using assms(2) by (simp add: fset_eq_iff fset_of_list.rep_eq)
  have load: "load_case_session (Some (snd (save_case_session iter_order default_str st c)))
                = Some ?r"
    unfolding reloaded_case [where st = st and c = c, OF d]
    by (simp add: same split: entity_value.splits)
  have viol: "snap_violations ?r = violations c" by simp
  have keys: "map fst (snap_entities ?r) = map fst (in_store st c)"
    by (simp add: in_store_def comp_def)
  have vals: "map_of (snap_entities ?r) k = Some (?restored v) \<and> members (?restored v) = members v"
    if "map_of (in_store st c) k = Some v" for k v
  proof
    from that show "map_of (snap_entities ?r) k = Some (?restored v)"
      by (simp add: in_store_def map_of_map_value)
    show "members (?restored v) = members v"
      by (cases v) (simp_all add: members_def fset_of_list.rep_eq)
  qed
  have written: "map_of (snap_entities (snd (save_case_session iter_order default_str st c))) k
                = Some (JArray (iter_order S))"
    if "map_of (in_store st c) k = Some (PySet S)" for k S
  proof -
    have "map_of (snap_entities (snd (save_case_session iter_order default_str st c))) k
            = map_option (json_dump_value default_str)
                (map_option (\<lambda>v. case v of PySet s \<Rightarrow> PyList (iter_order s) | w \<Rightarrow> w)
                   (map_of (st (entities c)) k))"
      unfolding saved_file listify_map [OF d]
      by (simp only: snapshot.select_convs map_of_map_value)
    with that show ?thesis by (simp add: in_store_def json_dump_value_def)
  qed
  show ?thesis
  proof (rule exI [of _ ?r], intro conjI allI impI)
    show "load_case_session (Some (snd (save_case_session iter_order default_str st c))) = Some ?r"
      by (rule load)
    show "snap_violations ?r = violations c" by (rule viol)
    show "map fst (snap_entities ?r) = map fst (in_store st c)" by (rule keys)
  next
    fix k v assume "map_of (in_store st c) k = Some v"
    from vals [OF this] show "map_of (snap_entities ?r) k = Some (?restored v)"
      and "members (?restored v) = members v" by blast+
  next
    fix k S assume "map_of (in_store st c) k = Some (PySet S)"
    then show "map_of (snap_entities (snd (save_case_session iter_order default_str st c))) k
                = Some (JArray (iter_order S))"
      by (rule written)
  qed
qed


text \<open>
  The example: the set of the case numbers comes back as it was, the list of the courts
  as the set of its elements, the violations as they were; the file holds the case
  numbers as an array.
\<close>

theorem save_load_round_trip_witness:
  "\<exists>r. load_case_session (Some (snd (save_case_session sorted_list_of_fset example_repr
             example_store example_held))) = Some r
     \<and> snap_violations r = violations example_held
     \<and> map fst (snap_entities r) = [''judges'', ''case_numbers'', ''courts'']
     \<and> map_of (snap_entities r) ''case_numbers'' = Some (PySet {|''A-1'', ''B-2''|})
     \<and> map_of (snap_entities r) ''courts'' = Some (PySet {|''Family Court''|})
     \<and> map_of (snap_entities (snd (save_case_session sorted_list_of_fset example_repr
             example_store example_held))) ''case_numbers'' = Some (JArray [''A-1'', ''B-2''])"
proof -
  have before: "in_store example_store example_held
     = [(''judges'', PySet {||}), (''case_numbers'', PySet {|''A-1'', ''B-2''|}),
        (''courts'', PyList [''Family Court'', ''Family Court''])]"
    by (simp add: in_store_def example_store_def example_held_def)
  have d: "distinct (map fst (in_store example_store example_held))"
    unfolding before by simp
  have io: "\<forall>S :: string fset. set (sorted_list_of_fset S) = fset S" by simp
  have order: "sorted_list_of_fset {|''A-1'', ''B-2''|} = [''A-1'', ''B-2'']" by code_simp
  have n: "map_of (in_store example_store example_held) ''case_numbers''
             = Some (PySet {|''A-1'', ''B-2''|})"
    unfolding before by simp
  have c: "map_of (in_store example_store example_held) ''courts''
             = Some (PyList [''Family Court'', ''Family Court''])"
    unfolding before by simp
  from save_load_round_trip [OF d io, of example_repr] obtain r
    where load: "load_case_session (Some (snd (save_case_session sorted_list_of_fset example_repr
             example_store example_held))) = Some r"
      and viol: "snap_violations r = violations example_held"
      and keys: "map fst (snap_entities r) = map fst (in_store example_store example_held)"
      and vals: "\<forall>k v. map_of (in_store example_store example_held) k = Some v \<longrightarrow>
           map_of (snap_entities r) k
             = Some (case v of PySet S \<Rightarrow> PySet S | PyList xs \<Rightarrow> PySet (fset_of_list xs)
                     | PyStr x \<Rightarrow> PyStr x)
           \<and> members (case v of PySet S \<Rightarrow> PySet S | PyList xs \<Rightarrow> PySet (fset_of_list xs)
                        | PyStr x \<Rightarrow> PyStr x) = members v"
      and arrays: "\<forall>k S. map_of (in_store example_store example_held) k = Some (PySet S) \<longrightarrow>
           map_of (snap_entities (snd (save_case_session sorted_list_of_fset example_repr
             example_store example_held))) k = Some (JArray (sorted_list_of_fset S))"
    by blast
  have keys': "map fst (snap_entities r) = [''judges'', ''case_numbers'', ''courts'']"
    unfolding keys before by simp
  from vals [rule_format, OF n, THEN conjunct1]
  have n': "map_of (snap_entities r) ''case_numbers'' = Some (PySet {|''A-1'', ''B-2''|})"
    by simp
  from vals [rule_format, OF c, THEN conjunct1]
  have c': "map_of (snap_entities r) ''courts'' = Some (PySet {|''Family Court''|})"
    by simp
  from arrays [rule_format, OF n]
  have a': "map_of (snap_entities (snd (save_case_session sorted_list_of_fset example_repr
             example_store example_held))) ''case_numbers'' = Some (JArray [''A-1'', ''B-2''])"
    unfolding order .
  show ?thesis
    by (rule exI [of _ r]) (intro conjI load viol keys' n' c' a')
qed

end
